theory Spec2Isabelle
  imports Main "HOL-Library.Multiset" "HOL-Library.Char_ord" "HOL-Library.List_Lexorder"
begin

section \<open>The task record and the indexed max-heap of priorityqueue.py\<close>

text \<open>
  Python's \<open>str\<close> is compared code point by code point; a \<open>string\<close> here is the list of
  bytes of its UTF-8 encoding, whose lexicographic order (\<open>List_Lexorder\<close> over
  \<open>Char_ord\<close>) is the same order. Python's \<open>int\<close> is unbounded: \<open>int\<close>.
\<close>

record Task =
  task_id :: string
  priority :: int
  arrival_time :: int
  deadline :: "int option"
  payload :: string

text \<open>
  The queue object: \<open>_heap\<close> is the list of tasks, \<open>_pos\<close> the dictionary from task id
  to slot. The queue's operations never put one task object in two slots (a resident id
  is refused by \<open>insert\<close>), so the tasks are kept by value.
\<close>

record MaxHeapPriorityQueue =
  heap :: "Task list"
  pos :: "string \<rightharpoonup> nat"

datatype error = ValueError | IndexError | KeyError

definition new_queue :: MaxHeapPriorityQueue where
  "new_queue = \<lparr>heap = [], pos = Map.empty\<rparr>"

definition is_empty :: "MaxHeapPriorityQueue \<Rightarrow> bool" where
  "is_empty q = (length (heap q) = 0)"

definition higher_priority :: "Task \<Rightarrow> Task \<Rightarrow> bool" where
  "higher_priority a b =
     (if priority a \<noteq> priority b then priority a > priority b
      else if arrival_time a \<noteq> arrival_time b then arrival_time a < arrival_time b
      else task_id a < task_id b)"

text \<open>
  \<open>_swap\<close>: the tuple assignment reads both slots first, then writes slot \<open>i\<close>, then
  slot \<open>j\<close>; the two dictionary writes read the list after the exchange.
\<close>

definition swap :: "MaxHeapPriorityQueue \<Rightarrow> nat \<Rightarrow> nat \<Rightarrow> MaxHeapPriorityQueue" where
  "swap q i j =
     (let h = (heap q)[i := heap q ! j, j := heap q ! i];
          p1 = (pos q)(task_id (h ! i) \<mapsto> i);
          p2 = p1(task_id (h ! j) \<mapsto> j)
      in \<lparr>heap = h, pos = p2\<rparr>)"

text \<open>
  \<open>_sift_up\<close> and \<open>_sift_down\<close> are only called with a slot inside the list (the last
  slot after an append, slot 0 of a non-empty list, or a slot just read); every other
  slot they read is guarded by the loop tests, so no read can raise.
\<close>

function sift_up :: "MaxHeapPriorityQueue \<Rightarrow> nat \<Rightarrow> MaxHeapPriorityQueue" where
  "sift_up q idx =
     (if idx > 0 then
        (if higher_priority (heap q ! idx) (heap q ! ((idx - 1) div 2))
         then sift_up (swap q idx ((idx - 1) div 2)) ((idx - 1) div 2)
         else q)
      else q)"
  by pat_completeness auto
termination
  by (relation "measure (\<lambda>(q, idx). idx)") auto

text \<open>The loop of \<open>_sift_down\<close>; \<open>n\<close> is the length read once before the loop.\<close>

function sift_down_loop :: "nat \<Rightarrow> MaxHeapPriorityQueue \<Rightarrow> nat \<Rightarrow> MaxHeapPriorityQueue" where
  "sift_down_loop n q idx =
     (if 2 * idx + 1 \<ge> n then q
      else
        (let left = 2 * idx + 1;
             right = left + 1;
             best = (if right < n \<and> higher_priority (heap q ! right) (heap q ! left)
                     then right else left)
         in if higher_priority (heap q ! best) (heap q ! idx)
            then sift_down_loop n (swap q idx best) best
            else q))"
  by pat_completeness auto
termination
  by (relation "measure (\<lambda>(n, q, idx). n - idx)") (auto simp: Let_def)

definition sift_down :: "MaxHeapPriorityQueue \<Rightarrow> nat \<Rightarrow> MaxHeapPriorityQueue" where
  "sift_down q idx = sift_down_loop (length (heap q)) q idx"

text \<open>
  The public operations return the outcome together with the queue as the call leaves
  it, so that a raise after a mutation would be visible.
\<close>

definition insert_task ::
  "MaxHeapPriorityQueue \<Rightarrow> Task \<Rightarrow> (error + unit) \<times> MaxHeapPriorityQueue" where
  "insert_task q task =
     (if pos q (task_id task) \<noteq> None then (Inl ValueError, q)
      else
        (let h = heap q @ [task];
             idx = length h - 1;
             q1 = \<lparr>heap = h, pos = (pos q)(task_id task \<mapsto> idx)\<rparr>
         in (Inr (), sift_up q1 idx)))"

text \<open>
  \<open>extract_max\<close>: \<open>del self._pos[top.task_id]\<close> raises KeyError on an absent key, after
  the list has been popped.
\<close>

definition extract_max ::
  "MaxHeapPriorityQueue \<Rightarrow> (error + Task) \<times> MaxHeapPriorityQueue" where
  "extract_max q =
     (if is_empty q then (Inl IndexError, q)
      else
        (let top = heap q ! 0;
             lst = last (heap q);
             h1 = butlast (heap q)
         in if pos q (task_id top) = None then (Inl KeyError, q\<lparr>heap := h1\<rparr>)
            else
              (let p1 = (pos q)(task_id top := None)
               in if h1 \<noteq> []
                  then (Inr top,
                        sift_down \<lparr>heap = h1[0 := lst], pos = p1(task_id lst \<mapsto> 0)\<rparr> 0)
                  else (Inr top, \<lparr>heap = h1, pos = p1\<rparr>))))"

definition peek_max ::
  "MaxHeapPriorityQueue \<Rightarrow> (error + Task) \<times> MaxHeapPriorityQueue" where
  "peek_max q = (if is_empty q then (Inl IndexError, q) else (Inr (heap q ! 0), q))"

text \<open>
  \<open>increase_key\<close> and \<open>decrease_key\<close>: \<open>self._heap[i]\<close> raises IndexError when the
  dictionary's slot is outside the list.
\<close>

definition increase_key ::
  "MaxHeapPriorityQueue \<Rightarrow> string \<Rightarrow> int \<Rightarrow> (error + unit) \<times> MaxHeapPriorityQueue" where
  "increase_key q tid new_priority =
     (case pos q tid of
        None \<Rightarrow> (Inl KeyError, q)
      | Some i \<Rightarrow>
          if i \<ge> length (heap q) then (Inl IndexError, q)
          else if new_priority < priority (heap q ! i) then (Inl ValueError, q)
          else (Inr (),
                sift_up (q\<lparr>heap := (heap q)[i := (heap q ! i)\<lparr>priority := new_priority\<rparr>]\<rparr>) i))"

definition decrease_key ::
  "MaxHeapPriorityQueue \<Rightarrow> string \<Rightarrow> int \<Rightarrow> (error + unit) \<times> MaxHeapPriorityQueue" where
  "decrease_key q tid new_priority =
     (case pos q tid of
        None \<Rightarrow> (Inl KeyError, q)
      | Some i \<Rightarrow>
          if i \<ge> length (heap q) then (Inl IndexError, q)
          else if new_priority > priority (heap q ! i) then (Inl ValueError, q)
          else (Inr (),
                sift_down (q\<lparr>heap := (heap q)[i := (heap q ! i)\<lparr>priority := new_priority\<rparr>]\<rparr>) i))"

definition len :: "MaxHeapPriorityQueue \<Rightarrow> nat" where
  "len q = length (heap q)"

section \<open>The discrete-time driver\<close>

text \<open>
  \<open>by_time.setdefault(task.arrival_time, []).append(task)\<close>, task by task: each bucket
  keeps the order of the input list.
\<close>

definition by_time_of :: "Task list \<Rightarrow> (int \<rightharpoonup> Task list)" where
  "by_time_of tasks =
     foldl (\<lambda>m task. m(arrival_time task \<mapsto>
                         (case m (arrival_time task) of None \<Rightarrow> [] | Some l \<Rightarrow> l) @ [task]))
           Map.empty tasks"

text \<open>The inner loop \<open>for task in by_time.get(t, []): pq.insert(task)\<close>.\<close>

fun insert_all ::
  "MaxHeapPriorityQueue \<Rightarrow> Task list \<Rightarrow> (error + unit) \<times> MaxHeapPriorityQueue" where
  "insert_all q [] = (Inr (), q)"
| "insert_all q (task # rest) =
     (case insert_task q task of
        (Inl e, q1) \<Rightarrow> (Inl e, q1)
      | (Inr u, q1) \<Rightarrow> insert_all q1 rest)"

text \<open>The outer loop over the time steps still to run, with the queue and the timeline so far.\<close>

fun sim_loop ::
  "(int \<rightharpoonup> Task list) \<Rightarrow> int list \<Rightarrow> MaxHeapPriorityQueue \<Rightarrow> (int \<times> Task) list
     \<Rightarrow> error + (int \<times> Task) list" where
  "sim_loop by_time [] q timeline = Inr timeline"
| "sim_loop by_time (t # ts) q timeline =
     (case insert_all q (case by_time t of None \<Rightarrow> [] | Some l \<Rightarrow> l) of
        (Inl e, q1) \<Rightarrow> Inl e
      | (Inr u, q1) \<Rightarrow>
          if \<not> is_empty q1 then
            (case extract_max q1 of
               (Inl e, q2) \<Rightarrow> Inl e
             | (Inr executed, q2) \<Rightarrow> sim_loop by_time ts q2 (timeline @ [(t, executed)]))
          else sim_loop by_time ts q1 timeline)"

text \<open>\<open>range(max_time + 1)\<close> is \<open>0, ..., max_time\<close>, empty when \<open>max_time\<close> is negative.\<close>

definition simulate_scheduler :: "Task list \<Rightarrow> int \<Rightarrow> error + (int \<times> Task) list" where
  "simulate_scheduler tasks max_time =
     sim_loop (by_time_of tasks) [0..max_time] new_queue []"

text \<open>The demonstration tasks of the module's main block.\<close>

definition demo_tasks :: "Task list" where
  "demo_tasks =
     [\<lparr>task_id = ''A'', priority = 3, arrival_time = 0, deadline = Some 10, payload = ''''\<rparr>,
      \<lparr>task_id = ''B'', priority = 10, arrival_time = 1, deadline = Some 3, payload = ''''\<rparr>,
      \<lparr>task_id = ''C'', priority = 5, arrival_time = 1, deadline = Some 8, payload = ''''\<rparr>,
      \<lparr>task_id = ''D'', priority = 10, arrival_time = 2, deadline = Some 5, payload = ''''\<rparr>,
      \<lparr>task_id = ''E'', priority = 1, arrival_time = 3, deadline = Some 12, payload = ''''\<rparr>]"

section \<open>The comparator\<close>

lemma hp_irrefl: "\<not> higher_priority a a"
  by (simp add: higher_priority_def)

lemma hp_trans: "higher_priority a b \<Longrightarrow> higher_priority b c \<Longrightarrow> higher_priority a c"
  by (auto simp: higher_priority_def split: if_splits)

lemma hp_asym: "higher_priority a b \<Longrightarrow> \<not> higher_priority b a"
  by (auto simp: higher_priority_def split: if_splits)

lemma hp_total: "task_id a \<noteq> task_id b \<Longrightarrow> higher_priority a b \<or> higher_priority b a"
  by (auto simp: higher_priority_def split: if_splits)

lemma nhp_trans: "\<not> higher_priority b a \<Longrightarrow> \<not> higher_priority c b \<Longrightarrow> \<not> higher_priority c a"
  by (auto simp: higher_priority_def split: if_splits)

lemma nhp_hp: "\<not> higher_priority c p \<Longrightarrow> higher_priority i p \<Longrightarrow> \<not> higher_priority c i"
  by (auto simp: higher_priority_def split: if_splits)

text \<open>
  C6: the comparator is irreflexive, transitive and asymmetric, and on two tasks with
  different ids exactly one of the two directions holds.
\<close>

theorem higher_priority_strict_total_order:
  "\<not> higher_priority a a
   \<and> (higher_priority a b \<and> higher_priority b c \<longrightarrow> higher_priority a c)
   \<and> (higher_priority a b \<longrightarrow> \<not> higher_priority b a)
   \<and> (task_id a \<noteq> task_id b \<longrightarrow>
        (higher_priority a b \<or> higher_priority b a)
        \<and> \<not> (higher_priority a b \<and> higher_priority b a))"
  using hp_irrefl hp_trans hp_asym hp_total by blast

theorem higher_priority_strict_total_order_witness:
  "higher_priority (demo_tasks ! 1) (demo_tasks ! 2)
   \<and> higher_priority (demo_tasks ! 2) (demo_tasks ! 0)
   \<and> higher_priority (demo_tasks ! 1) (demo_tasks ! 0)
   \<and> \<not> higher_priority (demo_tasks ! 2) (demo_tasks ! 1)
   \<and> task_id (demo_tasks ! 1) \<noteq> task_id (demo_tasks ! 2)
   \<and> \<not> higher_priority (demo_tasks ! 1) (demo_tasks ! 1)"
  using higher_priority_strict_total_order
          [of "demo_tasks ! 1" "demo_tasks ! 2" "demo_tasks ! 0"]
  by (simp add: higher_priority_def demo_tasks_def)

text \<open>
  C8: the driver run on the five demonstration tasks A(3), B(10), C(5), D(10), E(1),
  arriving at 0, 1, 1, 2, 3, with horizon 6, returns the timeline
  (0,A), (1,B), (2,D), (3,C), (4,E) and nothing for the times 5 and 6.
\<close>

theorem simulate_scheduler_demo:
  "simulate_scheduler demo_tasks 6 =
     Inr [(0, \<lparr>task_id = ''A'', priority = 3, arrival_time = 0, deadline = Some 10, payload = ''''\<rparr>),
          (1, \<lparr>task_id = ''B'', priority = 10, arrival_time = 1, deadline = Some 3, payload = ''''\<rparr>),
          (2, \<lparr>task_id = ''D'', priority = 10, arrival_time = 2, deadline = Some 5, payload = ''''\<rparr>),
          (3, \<lparr>task_id = ''C'', priority = 5, arrival_time = 1, deadline = Some 8, payload = ''''\<rparr>),
          (4, \<lparr>task_id = ''E'', priority = 1, arrival_time = 3, deadline = Some 12, payload = ''''\<rparr>)]"
  by code_simp

section \<open>The position index\<close>

declare sift_up.simps [simp del]
declare sift_down_loop.simps [simp del]

definition index_consistent :: "MaxHeapPriorityQueue \<Rightarrow> bool" where
  "index_consistent q \<longleftrightarrow>
     (\<forall>i<length (heap q). pos q (task_id (heap q ! i)) = Some i)
     \<and> (\<forall>k i. pos q k = Some i \<longrightarrow> i < length (heap q) \<and> task_id (heap q ! i) = k)"

lemma heap_swap: "heap (swap q i j) = (heap q)[i := heap q ! j, j := heap q ! i]"
  by (simp add: swap_def Let_def)

lemma length_heap_swap [simp]: "length (heap (swap q i j)) = length (heap q)"
  by (simp add: heap_swap)

lemma pos_swap:
  assumes "i < length (heap q)" "j < length (heap q)"
  shows "pos (swap q i j) = (pos q)(task_id (heap q ! j) \<mapsto> i, task_id (heap q ! i) \<mapsto> j)"
proof -
  let ?h = "(heap q)[i := heap q ! j, j := heap q ! i]"
  have hi: "?h ! i = heap q ! j" using assms by (cases "i = j") simp_all
  have hj: "?h ! j = heap q ! i" using assms by simp
  show ?thesis unfolding swap_def Let_def hi hj by simp
qed

lemma index_consistentD1:
  "index_consistent q \<Longrightarrow> i < length (heap q) \<Longrightarrow> pos q (task_id (heap q ! i)) = Some i"
  unfolding index_consistent_def by blast

lemma index_consistentD2:
  "index_consistent q \<Longrightarrow> pos q k = Some i \<Longrightarrow> i < length (heap q) \<and> task_id (heap q ! i) = k"
  unfolding index_consistent_def by blast

lemma ids_inj:
  assumes "index_consistent q" "i < length (heap q)" "j < length (heap q)"
    "task_id (heap q ! i) = task_id (heap q ! j)"
  shows "i = j"
proof -
  have "pos q (task_id (heap q ! i)) = Some i"
    using assms(1,2) by (rule index_consistentD1)
  moreover have "pos q (task_id (heap q ! j)) = Some j"
    using assms(1,3) by (rule index_consistentD1)
  ultimately have "Some i = Some j" unfolding assms(4) by (rule trans [OF sym])
  then show ?thesis by (rule option.inject [THEN iffD1])
qed

lemma index_consistent_swap:
  assumes inv: "index_consistent q" and i: "i < length (heap q)" and j: "j < length (heap q)"
  shows "index_consistent (swap q i j)"
proof (cases "i = j")
  case True
  have heq: "heap (swap q i j) = heap q" using True by (simp add: heap_swap)
  have peq: "pos (swap q i j) = pos q"
  proof -
    have "pos q (task_id (heap q ! i)) = Some i"
      using inv i by (rule index_consistentD1)
    then have "(pos q)(task_id (heap q ! i) \<mapsto> i) = pos q"
      by (rule map_upd_triv)
    then show ?thesis using i True by (simp add: pos_swap)
  qed
  show ?thesis using inv unfolding index_consistent_def heq peq .
next
  case False
  let ?h = "heap q"
  have ne: "task_id (?h ! i) \<noteq> task_id (?h ! j)"
    using ids_inj [OF inv i j] False by blast
  show ?thesis
    unfolding index_consistent_def
  proof (intro conjI allI impI)
    fix k assume "k < length (heap (swap q i j))"
    then have k: "k < length ?h" by simp
    show "pos (swap q i j) (task_id (heap (swap q i j) ! k)) = Some k"
    proof -
      consider "k = i" | "k = j" | "k \<noteq> i" "k \<noteq> j" by blast
      then show ?thesis
      proof cases
        case 1 then show ?thesis using i j False ne by (simp add: pos_swap heap_swap)
      next
        case 2 then show ?thesis using i j False ne by (simp add: pos_swap heap_swap)
      next
        case 3
        have "task_id (?h ! k) \<noteq> task_id (?h ! i)" "task_id (?h ! k) \<noteq> task_id (?h ! j)"
          using ids_inj [OF inv k i] ids_inj [OF inv k j] 3 by blast+
        moreover have "pos q (task_id (?h ! k)) = Some k"
          using inv k by (rule index_consistentD1)
        ultimately show ?thesis using 3 i j by (simp add: pos_swap heap_swap)
      qed
    qed
  next
    fix k m assume km: "pos (swap q i j) k = Some m"
    have "m = i \<or> m = j \<or> pos q k = Some m"
      using km i j by (simp add: pos_swap split: if_splits)
    moreover have "pos q k = Some m \<Longrightarrow> m < length (heap q)"
      using index_consistentD2 [OF inv] by blast
    ultimately show "m < length (heap (swap q i j))"
      using i j by auto
    show "task_id (heap (swap q i j) ! m) = k"
    proof -
      consider "k = task_id (?h ! i)" | "k = task_id (?h ! j)"
        | "k \<noteq> task_id (?h ! i)" "k \<noteq> task_id (?h ! j)" by blast
      then show ?thesis
      proof cases
        case 1 then show ?thesis using km i j False by (simp add: pos_swap heap_swap)
      next
        case 2 then show ?thesis using km i j False ne by (simp add: pos_swap heap_swap)
      next
        case 3
        then have pk: "pos q k = Some m" using km i j by (simp add: pos_swap)
        then have m: "m < length ?h" "task_id (?h ! m) = k"
          using index_consistentD2 [OF inv] by blast+
        then have "m \<noteq> i" "m \<noteq> j" using 3 by auto
        then show ?thesis using m by (simp add: heap_swap)
      qed
    qed
  qed
qed

lemma index_consistent_sift_up:
  "index_consistent q \<Longrightarrow> idx < length (heap q) \<Longrightarrow> index_consistent (sift_up q idx)"
proof (induction q idx rule: sift_up.induct)
  case (1 q idx)
  show ?case
  proof (cases "idx > 0 \<and> higher_priority (heap q ! idx) (heap q ! ((idx - 1) div 2))")
    case True
    have p: "(idx - 1) div 2 < length (heap q)" using "1.prems"(2) by simp
    have "index_consistent (swap q idx ((idx - 1) div 2))"
      using index_consistent_swap [OF "1.prems"(1) "1.prems"(2) p] .
    then have "index_consistent (sift_up (swap q idx ((idx - 1) div 2)) ((idx - 1) div 2))"
      using "1.IH" True p by simp
    then show ?thesis using True by (subst sift_up.simps) simp
  next
    case False
    then show ?thesis using "1.prems"(1) by (subst sift_up.simps) auto
  qed
qed


lemma length_sift_up [simp]: "length (heap (sift_up q idx)) = length (heap q)"
proof (induction q idx rule: sift_up.induct)
  case (1 q idx)
  then show ?case by (subst sift_up.simps) simp
qed

lemma length_sift_down_loop [simp]: "length (heap (sift_down_loop n q idx)) = length (heap q)"
proof (induction n q idx rule: sift_down_loop.induct)
  case (1 n q idx)
  then show ?case by (subst sift_down_loop.simps) (simp add: Let_def)
qed

definition best_child :: "nat \<Rightarrow> Task list \<Rightarrow> nat \<Rightarrow> nat" where
  "best_child n h idx =
     (if 2 * idx + 2 < n \<and> higher_priority (h ! (2 * idx + 2)) (h ! (2 * idx + 1))
      then 2 * idx + 2 else 2 * idx + 1)"

lemma sift_down_loop_unfold:
  "sift_down_loop n q idx =
     (if n \<le> 2 * idx + 1 then q
      else if higher_priority (heap q ! best_child n (heap q) idx) (heap q ! idx)
           then sift_down_loop n (swap q idx (best_child n (heap q) idx))
                  (best_child n (heap q) idx)
           else q)"
  by (subst sift_down_loop.simps) (simp add: Let_def best_child_def)

lemma sift_down_loop_induct [case_names step]:
  assumes "\<And>n q idx.
     (\<not> n \<le> 2 * idx + 1 \<Longrightarrow>
       higher_priority (heap q ! best_child n (heap q) idx) (heap q ! idx) \<Longrightarrow>
       P n (swap q idx (best_child n (heap q) idx)) (best_child n (heap q) idx))
     \<Longrightarrow> P n q idx"
  shows "P n q idx"
proof (induction n q idx rule: sift_down_loop.induct)
  case (1 n q idx)
  show ?case
  proof (rule assms)
    assume a: "\<not> n \<le> 2 * idx + 1"
      and b: "higher_priority (heap q ! best_child n (heap q) idx) (heap q ! idx)"
    show "P n (swap q idx (best_child n (heap q) idx)) (best_child n (heap q) idx)"
    proof (rule "1.IH" [OF a refl refl _ ])
      show "best_child n (heap q) idx =
        (if 2 * idx + 1 + 1 < n
            \<and> higher_priority (heap q ! (2 * idx + 1 + 1)) (heap q ! (2 * idx + 1))
         then 2 * idx + 1 + 1 else 2 * idx + 1)"
        by (simp add: best_child_def)
      show "higher_priority (heap q ! best_child n (heap q) idx) (heap q ! idx)" by (rule b)
    qed
  qed
qed

lemma best_child_bounds:
  "\<not> n \<le> 2 * idx + 1 \<Longrightarrow> best_child n h idx < n \<and> idx < best_child n h idx
     \<and> (best_child n h idx = 2 * idx + 1 \<or> best_child n h idx = 2 * idx + 2)"
  by (simp add: best_child_def)

lemma index_consistent_sift_down_loop:
  "index_consistent q \<Longrightarrow> idx < n \<Longrightarrow> n = length (heap q)
     \<Longrightarrow> index_consistent (sift_down_loop n q idx)"
proof (induction n q idx rule: sift_down_loop_induct)
  case (step n q idx)
  show ?case
  proof (cases "\<not> n \<le> 2 * idx + 1
      \<and> higher_priority (heap q ! best_child n (heap q) idx) (heap q ! idx)")
    case True
    then have b: "best_child n (heap q) idx < n" using best_child_bounds by blast
    have "index_consistent (swap q idx (best_child n (heap q) idx))"
      using index_consistent_swap step.prems b by simp
    then show ?thesis
      using step.IH True b step.prems(3) by (subst sift_down_loop_unfold) simp
  next
    case False
    then show ?thesis using step.prems(1) by (subst sift_down_loop_unfold) auto
  qed
qed


section \<open>Heap order\<close>

abbreviation parent :: "nat \<Rightarrow> nat" where
  "parent c \<equiv> (c - 1) div 2"

definition weak_order :: "Task list \<Rightarrow> bool" where
  "weak_order h \<longleftrightarrow> (\<forall>c<length h. 0 < c \<longrightarrow> \<not> higher_priority (h ! c) (h ! parent c))"

definition order_except_up :: "Task list \<Rightarrow> nat \<Rightarrow> bool" where
  "order_except_up h idx \<longleftrightarrow>
     (\<forall>c<length h. 0 < c \<and> c \<noteq> idx \<longrightarrow> \<not> higher_priority (h ! c) (h ! parent c))
     \<and> (\<forall>c<length h. 0 < c \<and> parent c = idx \<and> 0 < idx
            \<longrightarrow> \<not> higher_priority (h ! c) (h ! parent idx))"

definition order_except_down :: "Task list \<Rightarrow> nat \<Rightarrow> bool" where
  "order_except_down h idx \<longleftrightarrow>
     (\<forall>c<length h. 0 < c \<and> parent c \<noteq> idx \<longrightarrow> \<not> higher_priority (h ! c) (h ! parent c))
     \<and> (\<forall>c<length h. 0 < c \<and> parent c = idx \<and> 0 < idx
            \<longrightarrow> \<not> higher_priority (h ! c) (h ! parent idx))"

lemma parent_less: "0 < c \<Longrightarrow> parent c < c"
  by arith

lemma nth_heap_swap:
  assumes "i < length (heap q)" "j < length (heap q)" "k < length (heap q)"
  shows "heap (swap q i j) ! k =
           (if k = j then heap q ! i else if k = i then heap q ! j else heap q ! k)"
  using assms by (simp add: heap_swap nth_list_update)

lemma order_except_up_step:
  assumes inv: "order_except_up (heap q) idx"
    and idx: "idx < length (heap q)" "0 < idx"
    and hp: "higher_priority (heap q ! idx) (heap q ! parent idx)"
  shows "order_except_up (heap (swap q idx (parent idx))) (parent idx)"
proof -
  let ?h = "heap q" and ?p = "parent idx" and ?h' = "heap (swap q idx (parent idx))"
  have "?p < idx" using idx(2) by (rule parent_less)
  then have p: "?p < idx" "?p < length ?h" using idx(1) by linarith+
  have nth: "\<And>k. k < length ?h \<Longrightarrow>
      ?h' ! k = (if k = ?p then ?h ! idx else if k = idx then ?h ! ?p else ?h ! k)"
    using nth_heap_swap [OF idx(1) p(2)] by blast
  have A1: "\<And>c. c < length ?h \<Longrightarrow> 0 < c \<Longrightarrow> c \<noteq> idx
      \<Longrightarrow> \<not> higher_priority (?h ! c) (?h ! parent c)"
    using inv unfolding order_except_up_def by blast
  have A2: "\<And>c. c < length ?h \<Longrightarrow> 0 < c \<Longrightarrow> parent c = idx
      \<Longrightarrow> \<not> higher_priority (?h ! c) (?h ! ?p)"
    using inv idx(2) unfolding order_except_up_def by blast
  have G1: "\<not> higher_priority (?h' ! c) (?h' ! parent c)"
    if c: "c < length ?h" "0 < c" "c \<noteq> ?p" for c
  proof -
    have "parent c < c" using c(2) by (rule parent_less)
    then have pc: "parent c < length ?h" "parent c \<noteq> c" using c(1) by linarith+
    show ?thesis
    proof (cases "c = idx")
      case True
      then have "?h' ! c = ?h ! ?p" "?h' ! parent c = ?h ! idx"
        using nth [OF idx(1)] nth [OF p(2)] p(1) by auto
      then show ?thesis using hp_asym [OF hp] by simp
    next
      case False
      then have hc: "?h' ! c = ?h ! c" using nth [OF c(1)] c(3) by simp
      consider "parent c = idx" | "parent c = ?p" | "parent c \<noteq> idx" "parent c \<noteq> ?p"
        by blast
      then show ?thesis
      proof cases
        case 1
        then have "?h' ! parent c = ?h ! ?p" using nth [OF idx(1)] p(1) by simp
        then show ?thesis using A2 [OF c(1,2) 1] hc by simp
      next
        case 2
        then have "?h' ! parent c = ?h ! idx" using nth [OF p(2)] by simp
        moreover have "\<not> higher_priority (?h ! c) (?h ! ?p)"
          using A1 [OF c(1,2) False] 2 by simp
        ultimately show ?thesis using nhp_hp hp hc by metis
      next
        case 3
        then have "?h' ! parent c = ?h ! parent c" using nth [OF pc(1)] by simp
        then show ?thesis using A1 [OF c(1,2) False] hc by simp
      qed
    qed
  qed
  have G2: "\<not> higher_priority (?h' ! c) (?h' ! parent ?p)"
    if c: "c < length ?h" "0 < c" "parent c = ?p" "0 < ?p" for c
  proof -
    have "parent ?p < ?p" using c(4) by (rule parent_less)
    then have pp: "parent ?p < length ?h" "parent ?p \<noteq> ?p" "parent ?p \<noteq> idx"
      using p by linarith+
    have hpp: "?h' ! parent ?p = ?h ! parent ?p" using nth [OF pp(1)] pp(2,3) by simp
    have B: "\<not> higher_priority (?h ! ?p) (?h ! parent ?p)"
      using A1 [OF p(2) c(4)] p(1) by simp
    show ?thesis
    proof (cases "c = idx")
      case True
      then have "?h' ! c = ?h ! ?p" using nth [OF idx(1)] p(1) by simp
      then show ?thesis using B hpp by simp
    next
      case False
      have "c \<noteq> ?p" using parent_less [OF c(2)] c(3) by linarith
      then have hc: "?h' ! c = ?h ! c" using nth [OF c(1)] False by simp
      have "\<not> higher_priority (?h ! c) (?h ! ?p)" using A1 [OF c(1,2) False] c(3) by simp
      then show ?thesis using nhp_trans [OF B] hc hpp by simp
    qed
  qed
  show ?thesis
    unfolding order_except_up_def using G1 G2 by simp
qed

lemma order_except_up_done:
  assumes "order_except_up h idx"
    and "idx = 0 \<or> \<not> higher_priority (h ! idx) (h ! parent idx)"
  shows "weak_order h"
  using assms unfolding order_except_up_def weak_order_def by (metis not_gr_zero)

lemma weak_order_sift_up:
  "order_except_up (heap q) idx \<Longrightarrow> idx < length (heap q)
     \<Longrightarrow> weak_order (heap (sift_up q idx))"
proof (induction q idx rule: sift_up.induct)
  case (1 q idx)
  show ?case
  proof (cases "idx > 0 \<and> higher_priority (heap q ! idx) (heap q ! parent idx)")
    case True
    have "order_except_up (heap (swap q idx (parent idx))) (parent idx)"
      using order_except_up_step "1.prems" True by blast
    moreover have "parent idx < length (heap (swap q idx (parent idx)))"
      using "1.prems"(2) by simp
    ultimately have "weak_order (heap (sift_up (swap q idx (parent idx)) (parent idx)))"
      using "1.IH" True by blast
    then show ?thesis using True by (subst sift_up.simps) simp
  next
    case False
    then have "idx = 0 \<or> \<not> higher_priority (heap q ! idx) (heap q ! parent idx)"
      by auto
    then have "weak_order (heap q)" by (rule order_except_up_done [OF "1.prems"(1)])
    moreover have "sift_up q idx = q" using False by (subst sift_up.simps) auto
    ultimately show ?thesis by simp
  qed
qed

lemma best_child_parent:
  "\<not> n \<le> 2 * idx + 1 \<Longrightarrow> parent (best_child n h idx) = idx"
  by (simp add: best_child_def)

lemma parent_eq_iff: "0 < c \<Longrightarrow> parent c = idx \<longleftrightarrow> c = 2 * idx + 1 \<or> c = 2 * idx + 2"
  by arith

lemma best_child_sibling:
  assumes "\<not> n \<le> 2 * idx + 1" "c < n" "0 < c" "parent c = idx" "c \<noteq> best_child n h idx"
  shows "\<not> higher_priority (h ! c) (h ! best_child n h idx)"
proof -
  have c: "c = 2 * idx + 1 \<or> c = 2 * idx + 2" using assms(3,4) parent_eq_iff by blast
  show ?thesis
  proof (cases "2 * idx + 2 < n
      \<and> higher_priority (h ! (2 * idx + 2)) (h ! (2 * idx + 1))")
    case True
    then have b: "best_child n h idx = 2 * idx + 2" by (simp add: best_child_def)
    then have "c = 2 * idx + 1" using c assms(5) by auto
    then show ?thesis using True b hp_asym by simp
  next
    case False
    then have b: "best_child n h idx = 2 * idx + 1" by (auto simp: best_child_def)
    then have "c = 2 * idx + 2" using c assms(5) by auto
    then show ?thesis using False b assms(2) by auto
  qed
qed

lemma order_except_down_step:
  assumes inv: "order_except_down (heap q) idx"
    and n: "n = length (heap q)" "\<not> n \<le> 2 * idx + 1"
    and hp: "higher_priority (heap q ! best_child n (heap q) idx) (heap q ! idx)"
  shows "order_except_down (heap (swap q idx (best_child n (heap q) idx)))
           (best_child n (heap q) idx)"
proof -
  let ?h = "heap q" and ?b = "best_child n (heap q) idx"
  let ?h' = "heap (swap q idx ?b)"
  have b: "?b < length ?h" "idx < ?b" "parent ?b = idx" "0 < ?b"
    using best_child_bounds [OF n(2), of ?h] best_child_parent [OF n(2), of ?h] n(1)
    by auto
  have idx: "idx < length ?h" using b by linarith
  have nth: "\<And>k. k < length ?h \<Longrightarrow>
      ?h' ! k = (if k = ?b then ?h ! idx else if k = idx then ?h ! ?b else ?h ! k)"
    using nth_heap_swap [OF idx b(1)] by blast
  have A1: "\<And>c. c < length ?h \<Longrightarrow> 0 < c \<Longrightarrow> parent c \<noteq> idx
      \<Longrightarrow> \<not> higher_priority (?h ! c) (?h ! parent c)"
    using inv unfolding order_except_down_def by blast
  have A2: "\<And>c. c < length ?h \<Longrightarrow> 0 < c \<Longrightarrow> parent c = idx \<Longrightarrow> 0 < idx
      \<Longrightarrow> \<not> higher_priority (?h ! c) (?h ! parent idx)"
    using inv unfolding order_except_down_def by blast
  have S: "\<And>c. c < length ?h \<Longrightarrow> 0 < c \<Longrightarrow> parent c = idx \<Longrightarrow> c \<noteq> ?b
      \<Longrightarrow> \<not> higher_priority (?h ! c) (?h ! ?b)"
    using best_child_sibling [OF n(2)] n(1) by blast
  have G1: "\<not> higher_priority (?h' ! c) (?h' ! parent c)"
    if c: "c < length ?h" "0 < c" "parent c \<noteq> ?b" for c
  proof -
    have pcl: "parent c < c" using c(2) by (rule parent_less)
    then have pc: "parent c < length ?h" using c(1) by linarith
    consider "c = ?b" | "c = idx" | "c \<noteq> ?b" "c \<noteq> idx" by blast
    then show ?thesis
    proof cases
      case 1
      then have "?h' ! c = ?h ! idx" "?h' ! parent c = ?h ! ?b"
        using nth [OF b(1)] nth [OF idx] b(2,3) by auto
      then show ?thesis using hp_asym [OF hp] by simp
    next
      case 2
      then have i0: "0 < idx" using c(2) by simp
      have "?h' ! c = ?h ! ?b" using 2 nth [OF idx] b(2) by simp
      moreover have "?h' ! parent c = ?h ! parent idx"
        using 2 nth [OF pc] pcl c(3) by simp
      ultimately show ?thesis using A2 [OF b(1) b(4) b(3) i0] by simp
    next
      case 3
      then have hc: "?h' ! c = ?h ! c" using nth [OF c(1)] by simp
      show ?thesis
      proof (cases "parent c = idx")
        case True
        then have "?h' ! parent c = ?h ! ?b" using nth [OF idx] b(2) by simp
        then show ?thesis using S [OF c(1,2) True 3(1)] hc by simp
      next
        case False
        then have "?h' ! parent c = ?h ! parent c" using nth [OF pc] c(3) by simp
        then show ?thesis using A1 [OF c(1,2) False] hc by simp
      qed
    qed
  qed
  have G2: "\<not> higher_priority (?h' ! c) (?h' ! parent ?b)"
    if c: "c < length ?h" "0 < c" "parent c = ?b" for c
  proof -
    have "?b < c" using parent_less [OF c(2)] c(3) by simp
    then have "c \<noteq> ?b" "c \<noteq> idx" using b(2) by linarith+
    then have "?h' ! c = ?h ! c" using nth [OF c(1)] by simp
    moreover have "?h' ! parent ?b = ?h ! ?b" using nth [OF idx] b(2,3) by simp
    moreover have "parent c \<noteq> idx" using c(3) b(2) by simp
    ultimately show ?thesis using A1 [OF c(1,2)] c(3) by simp
  qed
  show ?thesis
    unfolding order_except_down_def using G1 G2 by simp
qed

lemma order_except_down_done:
  assumes inv: "order_except_down h idx"
    and stop: "length h \<le> 2 * idx + 1
      \<or> \<not> higher_priority (h ! best_child (length h) h idx) (h ! idx)"
  shows "weak_order h"
  unfolding weak_order_def
proof (intro allI impI)
  fix c assume c: "c < length h" "0 < c"
  show "\<not> higher_priority (h ! c) (h ! parent c)"
  proof (cases "parent c = idx")
    case False
    then show ?thesis using inv c unfolding order_except_down_def by blast
  next
    case True
    then have "c = 2 * idx + 1 \<or> c = 2 * idx + 2" using parent_eq_iff [OF c(2)] by blast
    then have n: "\<not> length h \<le> 2 * idx + 1" using c(1) by linarith
    then have nb: "\<not> higher_priority (h ! best_child (length h) h idx) (h ! idx)"
      using stop by blast
    show ?thesis
    proof (cases "c = best_child (length h) h idx")
      case True
      then show ?thesis using nb \<open>parent c = idx\<close> by simp
    next
      case False
      have "\<not> higher_priority (h ! c) (h ! best_child (length h) h idx)"
        using best_child_sibling [OF n c(1,2) True False] .
      then show ?thesis using nhp_trans [OF nb] True by simp
    qed
  qed
qed

lemma weak_order_sift_down_loop:
  "order_except_down (heap q) idx \<Longrightarrow> n = length (heap q)
     \<Longrightarrow> weak_order (heap (sift_down_loop n q idx))"
proof (induction n q idx rule: sift_down_loop_induct)
  case (step n q idx)
  show ?case
  proof (cases "\<not> n \<le> 2 * idx + 1
      \<and> higher_priority (heap q ! best_child n (heap q) idx) (heap q ! idx)")
    case True
    have "order_except_down (heap (swap q idx (best_child n (heap q) idx)))
            (best_child n (heap q) idx)"
      using order_except_down_step [OF step.prems(1,2)] True by blast
    then have "weak_order (heap (sift_down_loop n (swap q idx (best_child n (heap q) idx))
            (best_child n (heap q) idx)))"
      using step.IH True step.prems(2) by simp
    then show ?thesis using True by (subst sift_down_loop_unfold) simp
  next
    case False
    then have "length (heap q) \<le> 2 * idx + 1
      \<or> \<not> higher_priority (heap q ! best_child (length (heap q)) (heap q) idx) (heap q ! idx)"
      using step.prems(2) by auto
    then have "weak_order (heap q)" by (rule order_except_down_done [OF step.prems(1)])
    moreover have "sift_down_loop n q idx = q"
      using False by (subst sift_down_loop_unfold) auto
    ultimately show ?thesis by simp
  qed
qed

lemma mset_heap_swap:
  "i < length (heap q) \<Longrightarrow> j < length (heap q) \<Longrightarrow> mset (heap (swap q i j)) = mset (heap q)"
  by (simp add: heap_swap mset_swap)

lemma mset_sift_up:
  "idx < length (heap q) \<Longrightarrow> mset (heap (sift_up q idx)) = mset (heap q)"
proof (induction q idx rule: sift_up.induct)
  case (1 q idx)
  show ?case
  proof (cases "idx > 0 \<and> higher_priority (heap q ! idx) (heap q ! parent idx)")
    case True
    have p: "parent idx < length (heap q)" using "1.prems" by simp
    have "mset (heap (sift_up (swap q idx (parent idx)) (parent idx)))
        = mset (heap (swap q idx (parent idx)))"
      using "1.IH" True p by simp
    then show ?thesis
      using True mset_heap_swap [OF "1.prems" p] by (subst sift_up.simps) simp
  next
    case False
    then show ?thesis by (subst sift_up.simps) auto
  qed
qed

lemma mset_sift_down_loop:
  "idx < n \<Longrightarrow> n = length (heap q) \<Longrightarrow> mset (heap (sift_down_loop n q idx)) = mset (heap q)"
proof (induction n q idx rule: sift_down_loop_induct)
  case (step n q idx)
  show ?case
  proof (cases "\<not> n \<le> 2 * idx + 1
      \<and> higher_priority (heap q ! best_child n (heap q) idx) (heap q ! idx)")
    case True
    then have b: "best_child n (heap q) idx < n" using best_child_bounds by blast
    have "mset (heap (sift_down_loop n (swap q idx (best_child n (heap q) idx))
            (best_child n (heap q) idx))) = mset (heap (swap q idx (best_child n (heap q) idx)))"
      using step.IH True b step.prems(2) by simp
    moreover have "mset (heap (swap q idx (best_child n (heap q) idx))) = mset (heap q)"
      using mset_heap_swap step.prems b by simp
    ultimately show ?thesis using True by (subst sift_down_loop_unfold) simp
  next
    case False
    then show ?thesis by (subst sift_down_loop_unfold) auto
  qed
qed

lemma index_consistentI:
  assumes "\<And>i. i < length (heap q) \<Longrightarrow> pos q (task_id (heap q ! i)) = Some i"
    and "\<And>k i. pos q k = Some i \<Longrightarrow> i < length (heap q) \<and> task_id (heap q ! i) = k"
  shows "index_consistent q"
  unfolding index_consistent_def using assms by blast

lemma index_consistent_cong:
  assumes "map task_id (heap q') = map task_id (heap q)" "pos q' = pos q" "index_consistent q"
  shows "index_consistent q'"
proof -
  have len: "length (heap q') = length (heap q)" using assms(1) by (metis length_map)
  have ids: "\<And>i. i < length (heap q) \<Longrightarrow> task_id (heap q' ! i) = task_id (heap q ! i)"
    using assms(1) len by (metis nth_map)
  show ?thesis
  proof (rule index_consistentI)
    fix i assume "i < length (heap q')"
    then have i: "i < length (heap q)" using len by simp
    show "pos q' (task_id (heap q' ! i)) = Some i"
      using index_consistentD1 [OF assms(3) i] ids [OF i] assms(2) by simp
  next
    fix k i assume "pos q' k = Some i"
    then have "pos q k = Some i" using assms(2) by simp
    then have "i < length (heap q) \<and> task_id (heap q ! i) = k"
      by (rule index_consistentD2 [OF assms(3)])
    then show "i < length (heap q') \<and> task_id (heap q' ! i) = k"
      using len ids by simp
  qed
qed

lemma index_consistent_dom:
  assumes "index_consistent q"
  shows "dom (pos q) = task_id ` set (heap q)"
proof
  show "dom (pos q) \<subseteq> task_id ` set (heap q)"
  proof
    fix k assume "k \<in> dom (pos q)"
    then obtain i where "pos q k = Some i" by blast
    then have "i < length (heap q) \<and> task_id (heap q ! i) = k"
      by (rule index_consistentD2 [OF assms])
    then show "k \<in> task_id ` set (heap q)" by (metis imageI nth_mem)
  qed
  show "task_id ` set (heap q) \<subseteq> dom (pos q)"
  proof
    fix k assume "k \<in> task_id ` set (heap q)"
    then obtain i where i: "i < length (heap q)" "k = task_id (heap q ! i)"
      by (auto simp: in_set_conv_nth)
    then show "k \<in> dom (pos q)" using index_consistentD1 [OF assms i(1)] by blast
  qed
qed

lemma index_consistent_distinct:
  assumes "index_consistent q"
  shows "distinct (map task_id (heap q))"
  unfolding distinct_conv_nth
proof (intro allI impI)
  fix i j assume "i < length (map task_id (heap q))" "j < length (map task_id (heap q))" "i \<noteq> j"
  then show "map task_id (heap q) ! i \<noteq> map task_id (heap q) ! j"
    using ids_inj [OF assms, of i j] by auto
qed

lemma index_consistent_append:
  assumes inv: "index_consistent q" and new: "pos q (task_id task) = None"
  shows "index_consistent
    \<lparr>heap = heap q @ [task], pos = (pos q)(task_id task \<mapsto> length (heap q))\<rparr>"
proof (rule index_consistentI)
  let ?q' = "\<lparr>heap = heap q @ [task], pos = (pos q)(task_id task \<mapsto> length (heap q))\<rparr>"
  fix i assume "i < length (heap ?q')"
  then have "i < length (heap q) \<or> i = length (heap q)" by auto
  then show "pos ?q' (task_id (heap ?q' ! i)) = Some i"
  proof
    assume i: "i < length (heap q)"
    have "pos q (task_id (heap q ! i)) = Some i" using inv i by (rule index_consistentD1)
    moreover from this have "task_id (heap q ! i) \<noteq> task_id task" using new by auto
    ultimately show ?thesis using i by (simp add: nth_append)
  next
    assume "i = length (heap q)"
    then show ?thesis by simp
  qed
next
  let ?q' = "\<lparr>heap = heap q @ [task], pos = (pos q)(task_id task \<mapsto> length (heap q))\<rparr>"
  fix k i assume ki: "pos ?q' k = Some i"
  show "i < length (heap ?q') \<and> task_id (heap ?q' ! i) = k"
  proof (cases "k = task_id task")
    case True
    then show ?thesis using ki by auto
  next
    case False
    then have "pos q k = Some i" using ki by simp
    then have "i < length (heap q) \<and> task_id (heap q ! i) = k"
      by (rule index_consistentD2 [OF inv])
    then show ?thesis by (simp add: nth_append)
  qed
qed

lemma order_except_up_append:
  assumes "weak_order h"
  shows "order_except_up (h @ [x]) (length h)"
  unfolding order_except_up_def
proof (intro conjI allI impI)
  fix c assume c: "c < length (h @ [x])" "0 < c \<and> c \<noteq> length h"
  then have cl: "c < length h" by simp
  then have "parent c < length h" using parent_less [of c] c(2) by linarith
  then show "\<not> higher_priority ((h @ [x]) ! c) ((h @ [x]) ! parent c)"
    using assms cl c(2) unfolding weak_order_def by (simp add: nth_append)
next
  fix c assume c: "c < length (h @ [x])" "0 < c \<and> parent c = length h \<and> 0 < length h"
  then have "c = 2 * length h + 1 \<or> c = 2 * length h + 2" using parent_eq_iff by blast
  then have False using c(1) by auto
  then show "\<not> higher_priority ((h @ [x]) ! c) ((h @ [x]) ! parent (length h))" ..
qed

definition pq_invar :: "MaxHeapPriorityQueue \<Rightarrow> bool" where
  "pq_invar q \<longleftrightarrow> index_consistent q \<and> weak_order (heap q)"

lemma insert_task_ok:
  assumes inv: "pq_invar q" and new: "pos q (task_id task) = None"
  shows "fst (insert_task q task) = Inr ()"
    and "pq_invar (snd (insert_task q task))"
    and "mset (heap (snd (insert_task q task))) = add_mset task (mset (heap q))"
proof -
  let ?q1 = "\<lparr>heap = heap q @ [task], pos = (pos q)(task_id task \<mapsto> length (heap q))\<rparr>"
  have eq: "insert_task q task = (Inr (), sift_up ?q1 (length (heap q)))"
    using new by (simp add: insert_task_def Let_def)
  have ic: "index_consistent ?q1"
    using inv new index_consistent_append unfolding pq_invar_def by blast
  have ou: "order_except_up (heap ?q1) (length (heap q))"
    using inv order_except_up_append unfolding pq_invar_def by simp
  have l: "length (heap q) < length (heap ?q1)" by simp
  show "fst (insert_task q task) = Inr ()" using eq by simp
  show "pq_invar (snd (insert_task q task))"
    unfolding pq_invar_def eq snd_conv
    using index_consistent_sift_up [OF ic l] weak_order_sift_up [OF ou l] by blast
  show "mset (heap (snd (insert_task q task))) = add_mset task (mset (heap q))"
    unfolding eq snd_conv using mset_sift_up [OF l] by simp
qed


section \<open>Extraction\<close>

lemma mset_move_last:
  assumes "xs \<noteq> []"
  shows "mset ((butlast (x # xs))[0 := last (x # xs)]) = mset xs"
proof -
  have "(butlast (x # xs))[0 := last (x # xs)] = last xs # butlast xs"
    using assms by simp
  moreover have "mset (last xs # butlast xs) = mset (butlast xs @ [last xs])" by simp
  moreover have "butlast xs @ [last xs] = xs" using assms by (rule append_butlast_last_id)
  ultimately show ?thesis by (simp only:)
qed

lemma nth_move_last:
  assumes "0 < c" "c < length h - 1"
  shows "(butlast h)[0 := last h] ! c = h ! c"
  using assms by (simp add: nth_butlast)

lemma order_except_down_move_last:
  assumes "weak_order h"
  shows "order_except_down ((butlast h)[0 := last h]) 0"
  unfolding order_except_down_def
proof (intro conjI allI impI)
  let ?h' = "(butlast h)[0 := last h]"
  fix c assume c: "c < length ?h'" "0 < c \<and> parent c \<noteq> 0"
  then have cl: "c < length h - 1" "0 < c" "0 < parent c" by simp_all
  have pl: "parent c < length h - 1" using parent_less [OF cl(2)] cl(1) by linarith
  have "?h' ! c = h ! c" "?h' ! parent c = h ! parent c"
    using nth_move_last [OF cl(2) cl(1)] nth_move_last [OF cl(3) pl] by blast+
  moreover have "\<not> higher_priority (h ! c) (h ! parent c)"
    using assms cl unfolding weak_order_def by simp
  ultimately show "\<not> higher_priority (?h' ! c) (?h' ! parent c)" by simp
next
  fix c assume "0 < c \<and> parent c = 0 \<and> 0 < (0::nat)"
  then show "\<not> higher_priority ((butlast h)[0 := last h] ! c)
      ((butlast h)[0 := last h] ! parent 0)" by simp
qed

lemma index_consistent_move_last:
  assumes inv: "index_consistent q" and n: "1 < length (heap q)"
  shows "index_consistent
    \<lparr>heap = (butlast (heap q))[0 := last (heap q)],
     pos = ((pos q)(task_id (heap q ! 0) := None))(task_id (last (heap q)) \<mapsto> 0)\<rparr>"
    (is "index_consistent ?q'")
proof -
  let ?h = "heap q" and ?n = "length (heap q)"
  have "0 < length ?h" using n by linarith
  then have "?h \<noteq> []" by simp
  then have lst: "last ?h = ?h ! (?n - 1)" by (rule last_conv_nth)
  have l0: "0 < ?n" "?n - 1 < ?n" "0 \<noteq> ?n - 1" using n by linarith+
  have ne: "task_id (last ?h) \<noteq> task_id (?h ! 0)"
    using ids_inj [OF inv l0(2) l0(1)] l0(3) lst by auto
  have h0: "heap ?q' ! 0 = last ?h" using n by simp
  have hc: "\<And>c. 0 < c \<Longrightarrow> c < ?n - 1 \<Longrightarrow> heap ?q' ! c = ?h ! c"
    using nth_move_last by simp
  show ?thesis
  proof (rule index_consistentI)
    fix i assume "i < length (heap ?q')"
    then have i: "i < ?n - 1" by simp
    show "pos ?q' (task_id (heap ?q' ! i)) = Some i"
    proof (cases "i = 0")
      case True
      then show ?thesis using h0 by simp
    next
      case False
      then have i0: "0 < i" by simp
      have il: "i < ?n" using i by linarith
      have "task_id (?h ! i) \<noteq> task_id (?h ! 0)"
        using ids_inj [OF inv il l0(1)] False by blast
      moreover have "task_id (?h ! i) \<noteq> task_id (last ?h)"
        using ids_inj [OF inv il l0(2)] i lst by auto
      moreover have "pos q (task_id (?h ! i)) = Some i"
        using inv il by (rule index_consistentD1)
      ultimately show ?thesis using hc [OF i0 i] by simp
    qed
  next
    fix k i assume ki: "pos ?q' k = Some i"
    show "i < length (heap ?q') \<and> task_id (heap ?q' ! i) = k"
    proof (cases "k = task_id (last ?h)")
      case True
      then have "i = 0" using ki by simp
      then show ?thesis using True h0 n by simp
    next
      case False
      then have k0: "k \<noteq> task_id (?h ! 0)" and pk: "pos q k = Some i"
        using ki by (auto split: if_splits)
      have il: "i < ?n \<and> task_id (?h ! i) = k" using pk by (rule index_consistentD2 [OF inv])
      have "i \<noteq> 0" "i \<noteq> ?n - 1" using il k0 False lst by metis+
      then have "0 < i" "i < ?n - 1" using il by linarith+
      then show ?thesis using hc il by simp
    qed
  qed
qed

lemma index_consistent_remove_only:
  assumes inv: "index_consistent q" and n: "length (heap q) = 1"
  shows "index_consistent \<lparr>heap = [], pos = (pos q)(task_id (heap q ! 0) := None)\<rparr>"
proof (rule index_consistentI)
  fix i
  assume "i < length (heap \<lparr>heap = [], pos = (pos q)(task_id (heap q ! 0) := None)\<rparr>)"
  then show "pos \<lparr>heap = [], pos = (pos q)(task_id (heap q ! 0) := None)\<rparr>
      (task_id (heap \<lparr>heap = [], pos = (pos q)(task_id (heap q ! 0) := None)\<rparr> ! i)) = Some i"
    by simp
next
  fix k i
  assume ki: "pos \<lparr>heap = [], pos = (pos q)(task_id (heap q ! 0) := None)\<rparr> k = Some i"
  then have k0: "k \<noteq> task_id (heap q ! 0)" and pk: "pos q k = Some i"
    by (auto split: if_splits)
  have "i < length (heap q) \<and> task_id (heap q ! i) = k"
    using pk by (rule index_consistentD2 [OF inv])
  then have False using n k0 by auto
  then show "i < length (heap \<lparr>heap = [], pos = (pos q)(task_id (heap q ! 0) := None)\<rparr>)
      \<and> task_id (heap \<lparr>heap = [], pos = (pos q)(task_id (heap q ! 0) := None)\<rparr> ! i) = k" ..
qed

lemma weak_order_Nil: "weak_order []"
  by (simp add: weak_order_def)

lemma extract_max_ok:
  assumes inv: "pq_invar q" and ne: "heap q \<noteq> []"
  shows "fst (extract_max q) = Inr (heap q ! 0)"
    and "pq_invar (snd (extract_max q))"
    and "mset (heap (snd (extract_max q))) = mset (heap q) - {#heap q ! 0#}"
proof -
  have ic: "index_consistent q" and wo: "weak_order (heap q)"
    using inv unfolding pq_invar_def by blast+
  have l0: "0 < length (heap q)" using ne by simp
  have p0: "pos q (task_id (heap q ! 0)) \<noteq> None"
    using index_consistentD1 [OF ic l0] by simp
  obtain x xs where h: "heap q = x # xs" using ne by (cases "heap q") auto
  have res:
    "fst (extract_max q) = Inr (heap q ! 0)
     \<and> pq_invar (snd (extract_max q))
     \<and> mset (heap (snd (extract_max q))) = mset (heap q) - {#heap q ! 0#}"
  proof (cases "butlast (heap q) = []")
    case True
    then have n1: "length (heap q) = 1" using h by (cases xs) auto
    have eq: "extract_max q =
        (Inr (heap q ! 0), \<lparr>heap = [], pos = (pos q)(task_id (heap q ! 0) := None)\<rparr>)"
      using ne p0 True by (simp add: extract_max_def is_empty_def Let_def)
    have "mset (heap q) - {#heap q ! 0#} = {#}" using n1 h by simp
    then show ?thesis
      unfolding eq fst_conv snd_conv pq_invar_def
      using index_consistent_remove_only [OF ic n1] weak_order_Nil by simp
  next
    case False
    then have n2: "1 < length (heap q)" using h by (cases xs) auto
    let ?q2 = "\<lparr>heap = (butlast (heap q))[0 := last (heap q)],
       pos = ((pos q)(task_id (heap q ! 0) := None))(task_id (last (heap q)) \<mapsto> 0)\<rparr>"
    have eq: "extract_max q = (Inr (heap q ! 0), sift_down ?q2 0)"
      using ne p0 False by (simp add: extract_max_def is_empty_def Let_def)
    have ic2: "index_consistent ?q2" using index_consistent_move_last [OF ic n2] .
    have od: "order_except_down (heap ?q2) 0"
      using order_except_down_move_last [OF wo] by simp
    have l: "0 < length (heap ?q2)" using n2 by simp
    have xs: "xs \<noteq> []" using n2 h by auto
    have ms: "mset (heap ?q2) = mset (heap q) - {#heap q ! 0#}"
      using mset_move_last [OF xs, of x] h by simp
    have "index_consistent (sift_down ?q2 0)"
      unfolding sift_down_def using index_consistent_sift_down_loop [OF ic2 l refl] .
    moreover have "weak_order (heap (sift_down ?q2 0))"
      unfolding sift_down_def using weak_order_sift_down_loop [OF od refl] .
    moreover have "mset (heap (sift_down ?q2 0)) = mset (heap q) - {#heap q ! 0#}"
      unfolding sift_down_def using mset_sift_down_loop [OF l refl] ms by simp
    ultimately show ?thesis unfolding eq fst_conv snd_conv pq_invar_def by blast
  qed
  show "fst (extract_max q) = Inr (heap q ! 0)"
    and "pq_invar (snd (extract_max q))"
    and "mset (heap (snd (extract_max q))) = mset (heap q) - {#heap q ! 0#}"
    using res by blast+
qed


section \<open>Changing a key\<close>

lemma hp_raise:
  "priority x \<le> p \<Longrightarrow> \<not> higher_priority y x \<Longrightarrow> \<not> higher_priority y (x\<lparr>priority := p\<rparr>)"
  by (auto simp: higher_priority_def split: if_splits)

lemma hp_lower:
  "p \<le> priority x \<Longrightarrow> \<not> higher_priority x y \<Longrightarrow> \<not> higher_priority (x\<lparr>priority := p\<rparr>) y"
  by (auto simp: higher_priority_def split: if_splits)

lemma map_task_id_set_priority:
  "map task_id (h[i := (h ! i)\<lparr>priority := p\<rparr>]) = map task_id h"
proof (rule nth_equalityI)
  show "length (map task_id (h[i := (h ! i)\<lparr>priority := p\<rparr>])) = length (map task_id h)"
    by simp
  fix k assume "k < length (map task_id (h[i := (h ! i)\<lparr>priority := p\<rparr>]))"
  then have "k < length h" by simp
  then show "map task_id (h[i := (h ! i)\<lparr>priority := p\<rparr>]) ! k = map task_id h ! k"
    by (cases "k = i") simp_all
qed

lemma index_consistent_set_priority:
  assumes "index_consistent q"
  shows "index_consistent (q\<lparr>heap := (heap q)[i := (heap q ! i)\<lparr>priority := p\<rparr>]\<rparr>)"
  by (rule index_consistent_cong [OF _ _ assms]) (simp_all add: map_task_id_set_priority)

lemma order_except_up_raise:
  assumes wo: "weak_order h" and i: "i < length h" and p: "priority (h ! i) \<le> p"
  shows "order_except_up (h[i := (h ! i)\<lparr>priority := p\<rparr>]) i"
  unfolding order_except_up_def
proof (intro conjI allI impI)
  let ?h' = "h[i := (h ! i)\<lparr>priority := p\<rparr>]"
  fix c assume c: "c < length ?h'" "0 < c \<and> c \<noteq> i"
  then have cl: "c < length h" "0 < c" "c \<noteq> i" by simp_all
  have pl: "parent c < length h" using parent_less [OF cl(2)] cl(1) by linarith
  have A: "\<not> higher_priority (h ! c) (h ! parent c)"
    using wo cl unfolding weak_order_def by blast
  have hc: "?h' ! c = h ! c" using cl by simp
  show "\<not> higher_priority (?h' ! c) (?h' ! parent c)"
  proof (cases "parent c = i")
    case True
    then have "?h' ! parent c = (h ! i)\<lparr>priority := p\<rparr>" using i by simp
    then show ?thesis using hp_raise [OF p] A True hc by simp
  next
    case False
    then have "?h' ! parent c = h ! parent c" by simp
    then show ?thesis using A hc by simp
  qed
next
  let ?h' = "h[i := (h ! i)\<lparr>priority := p\<rparr>]"
  fix c assume c: "c < length ?h'" "0 < c \<and> parent c = i \<and> 0 < i"
  then have cl: "c < length h" "0 < c" "parent c = i" "0 < i" by simp_all
  have "c \<noteq> i" using parent_less [OF cl(2)] cl(3) by linarith
  then have hc: "?h' ! c = h ! c" by simp
  have "parent i \<noteq> i" using parent_less [OF cl(4)] by linarith
  then have hp: "?h' ! parent i = h ! parent i" by simp
  have "\<not> higher_priority (h ! c) (h ! i)" "\<not> higher_priority (h ! i) (h ! parent i)"
    using wo cl i unfolding weak_order_def by blast+
  then show "\<not> higher_priority (?h' ! c) (?h' ! parent i)"
    using nhp_trans hc hp by metis
qed

lemma order_except_down_lower:
  assumes wo: "weak_order h" and i: "i < length h" and p: "p \<le> priority (h ! i)"
  shows "order_except_down (h[i := (h ! i)\<lparr>priority := p\<rparr>]) i"
  unfolding order_except_down_def
proof (intro conjI allI impI)
  let ?h' = "h[i := (h ! i)\<lparr>priority := p\<rparr>]"
  fix c assume c: "c < length ?h'" "0 < c \<and> parent c \<noteq> i"
  then have cl: "c < length h" "0 < c" "parent c \<noteq> i" by simp_all
  have A: "\<not> higher_priority (h ! c) (h ! parent c)"
    using wo cl unfolding weak_order_def by blast
  have hp: "?h' ! parent c = h ! parent c" using cl(3) by simp
  show "\<not> higher_priority (?h' ! c) (?h' ! parent c)"
  proof (cases "c = i")
    case True
    then have "?h' ! c = (h ! i)\<lparr>priority := p\<rparr>" using i by simp
    then show ?thesis using hp_lower [OF p] A True hp by simp
  next
    case False
    then have "?h' ! c = h ! c" by simp
    then show ?thesis using A hp by simp
  qed
next
  let ?h' = "h[i := (h ! i)\<lparr>priority := p\<rparr>]"
  fix c assume c: "c < length ?h'" "0 < c \<and> parent c = i \<and> 0 < i"
  then have cl: "c < length h" "0 < c" "parent c = i" "0 < i" by simp_all
  have "c \<noteq> i" using parent_less [OF cl(2)] cl(3) by linarith
  then have hc: "?h' ! c = h ! c" by simp
  have "parent i \<noteq> i" using parent_less [OF cl(4)] by linarith
  then have hp: "?h' ! parent i = h ! parent i" by simp
  have "\<not> higher_priority (h ! c) (h ! i)" "\<not> higher_priority (h ! i) (h ! parent i)"
    using wo cl i unfolding weak_order_def by blast+
  then show "\<not> higher_priority (?h' ! c) (?h' ! parent i)"
    using nhp_trans hc hp by metis
qed

lemma increase_key_ok:
  assumes inv: "pq_invar q" and tid: "pos q tid = Some i"
    and p: "priority (heap q ! i) \<le> new_priority"
  shows "increase_key q tid new_priority =
           (Inr (), sift_up (q\<lparr>heap := (heap q)[i := (heap q ! i)\<lparr>priority := new_priority\<rparr>]\<rparr>) i)"
    and "pq_invar (snd (increase_key q tid new_priority))"
proof -
  let ?q1 = "q\<lparr>heap := (heap q)[i := (heap q ! i)\<lparr>priority := new_priority\<rparr>]\<rparr>"
  have ic: "index_consistent q" and wo: "weak_order (heap q)"
    using inv unfolding pq_invar_def by blast+
  have i: "i < length (heap q)" using index_consistentD2 [OF ic tid] by blast
  show eq: "increase_key q tid new_priority = (Inr (), sift_up ?q1 i)"
    using tid i p by (simp add: increase_key_def)
  have i1: "i < length (heap ?q1)" using i by simp
  have "index_consistent (sift_up ?q1 i)"
    using index_consistent_sift_up [OF index_consistent_set_priority [OF ic] i1] .
  moreover have "order_except_up (heap ?q1) i"
    using order_except_up_raise [OF wo i p] by simp
  then have "weak_order (heap (sift_up ?q1 i))" using weak_order_sift_up i1 by blast
  ultimately show "pq_invar (snd (increase_key q tid new_priority))"
    unfolding eq snd_conv pq_invar_def by blast
qed

lemma decrease_key_ok:
  assumes inv: "pq_invar q" and tid: "pos q tid = Some i"
    and p: "new_priority \<le> priority (heap q ! i)"
  shows "decrease_key q tid new_priority =
           (Inr (), sift_down (q\<lparr>heap := (heap q)[i := (heap q ! i)\<lparr>priority := new_priority\<rparr>]\<rparr>) i)"
    and "pq_invar (snd (decrease_key q tid new_priority))"
proof -
  let ?q1 = "q\<lparr>heap := (heap q)[i := (heap q ! i)\<lparr>priority := new_priority\<rparr>]\<rparr>"
  have ic: "index_consistent q" and wo: "weak_order (heap q)"
    using inv unfolding pq_invar_def by blast+
  have i: "i < length (heap q)" using index_consistentD2 [OF ic tid] by blast
  show eq: "decrease_key q tid new_priority = (Inr (), sift_down ?q1 i)"
    using tid i p by (simp add: decrease_key_def)
  have i1: "i < length (heap ?q1)" using i by simp
  have "index_consistent (sift_down ?q1 i)"
    unfolding sift_down_def
    using index_consistent_sift_down_loop [OF index_consistent_set_priority [OF ic] i1 refl] .
  moreover have "order_except_down (heap ?q1) i"
    using order_except_down_lower [OF wo i p] by simp
  then have "weak_order (heap (sift_down ?q1 i))"
    unfolding sift_down_def using weak_order_sift_down_loop by blast
  ultimately show "pq_invar (snd (decrease_key q tid new_priority))"
    unfolding eq snd_conv pq_invar_def by blast
qed


section \<open>Reachable queue states\<close>

text \<open>
  The queue states a caller can reach: the empty queue, and the queue any call of a
  public operation leaves behind, whether the call returned or raised.
\<close>

inductive reachable :: "MaxHeapPriorityQueue \<Rightarrow> bool" where
  r_new: "reachable new_queue"
| r_insert: "reachable q \<Longrightarrow> reachable (snd (insert_task q task))"
| r_extract: "reachable q \<Longrightarrow> reachable (snd (extract_max q))"
| r_peek: "reachable q \<Longrightarrow> reachable (snd (peek_max q))"
| r_increase: "reachable q \<Longrightarrow> reachable (snd (increase_key q tid new_priority))"
| r_decrease: "reachable q \<Longrightarrow> reachable (snd (decrease_key q tid new_priority))"

lemma pq_invar_new: "pq_invar new_queue"
  by (simp add: pq_invar_def new_queue_def index_consistent_def weak_order_def)

lemma pq_invar_insert: "pq_invar q \<Longrightarrow> pq_invar (snd (insert_task q task))"
proof (cases "pos q (task_id task) = None")
  case True
  assume "pq_invar q"
  then show ?thesis using insert_task_ok(2) True by blast
next
  case False
  assume "pq_invar q"
  then show ?thesis using False by (simp add: insert_task_def)
qed

lemma pq_invar_extract: "pq_invar q \<Longrightarrow> pq_invar (snd (extract_max q))"
proof (cases "heap q = []")
  case True
  assume "pq_invar q"
  then show ?thesis using True by (simp add: extract_max_def is_empty_def)
next
  case False
  assume "pq_invar q"
  then show ?thesis using extract_max_ok(2) False by blast
qed

lemma pq_invar_peek: "pq_invar q \<Longrightarrow> pq_invar (snd (peek_max q))"
  by (simp add: peek_max_def)

lemma pq_invar_increase:
  assumes "pq_invar q"
  shows "pq_invar (snd (increase_key q tid new_priority))"
proof (cases "pos q tid")
  case None
  then show ?thesis using assms by (simp add: increase_key_def)
next
  case (Some i)
  show ?thesis
  proof (cases "priority (heap q ! i) \<le> new_priority")
    case True
    then show ?thesis using increase_key_ok(2) [OF assms Some] by blast
  next
    case False
    then show ?thesis using assms Some by (simp add: increase_key_def)
  qed
qed

lemma pq_invar_decrease:
  assumes "pq_invar q"
  shows "pq_invar (snd (decrease_key q tid new_priority))"
proof (cases "pos q tid")
  case None
  then show ?thesis using assms by (simp add: decrease_key_def)
next
  case (Some i)
  show ?thesis
  proof (cases "new_priority \<le> priority (heap q ! i)")
    case True
    then show ?thesis using decrease_key_ok(2) [OF assms Some] by blast
  next
    case False
    then show ?thesis using assms Some by (simp add: decrease_key_def)
  qed
qed

lemma reachable_invar: "reachable q \<Longrightarrow> pq_invar q"
proof (induction rule: reachable.induct)
  case r_new
  show ?case by (rule pq_invar_new)
next
  case (r_insert q task)
  then show ?case by (simp add: pq_invar_insert)
next
  case (r_extract q)
  then show ?case by (simp add: pq_invar_extract)
next
  case (r_peek q)
  then show ?case by (simp add: pq_invar_peek)
next
  case (r_increase q tid new_priority)
  then show ?case by (simp add: pq_invar_increase)
next
  case (r_decrease q tid new_priority)
  then show ?case by (simp add: pq_invar_decrease)
qed

lemma weak_order_root:
  assumes "weak_order h"
  shows "i < length h \<Longrightarrow> \<not> higher_priority (h ! i) (h ! 0)"
proof (induction i rule: less_induct)
  case (less i)
  show ?case
  proof (cases "i = 0")
    case True
    then show ?thesis by (simp add: hp_irrefl)
  next
    case False
    then have i0: "0 < i" by simp
    have pl: "parent i < i" using i0 by (rule parent_less)
    have "parent i < length h" using pl less.prems by linarith
    then have "\<not> higher_priority (h ! parent i) (h ! 0)"
      by (rule less.IH [OF pl])
    moreover have "\<not> higher_priority (h ! i) (h ! parent i)"
      using assms less.prems i0 unfolding weak_order_def by blast
    ultimately show ?thesis by (rule nhp_trans)
  qed
qed

lemma pq_invar_strict:
  assumes inv: "pq_invar q" and i: "i < length (heap q)" and j: "j < length (heap q)"
    and ne: "i \<noteq> j" and le: "\<not> higher_priority (heap q ! j) (heap q ! i)"
  shows "higher_priority (heap q ! i) (heap q ! j)"
proof -
  have "index_consistent q" using inv unfolding pq_invar_def by blast
  then have "task_id (heap q ! i) \<noteq> task_id (heap q ! j)"
    using ids_inj i j ne by blast
  then show ?thesis using hp_total le by blast
qed

text \<open>
  C2: in every reachable queue state each slot's task id is mapped to that slot, each
  key of the dictionary is mapped to a slot holding that id, and the keys are exactly
  the resident ids.
\<close>

theorem reachable_index_consistent:
  assumes "reachable q"
  shows "(\<forall>i<length (heap q). pos q (task_id (heap q ! i)) = Some i)
       \<and> (\<forall>tid i. pos q tid = Some i \<longrightarrow> i < length (heap q) \<and> task_id (heap q ! i) = tid)
       \<and> dom (pos q) = task_id ` set (heap q)"
proof -
  have ic: "index_consistent q"
    using reachable_invar [OF assms] unfolding pq_invar_def by blast
  have "\<forall>i<length (heap q). pos q (task_id (heap q ! i)) = Some i"
    using index_consistentD1 [OF ic] by blast
  moreover have "\<forall>tid i. pos q tid = Some i
      \<longrightarrow> i < length (heap q) \<and> task_id (heap q ! i) = tid"
    using index_consistentD2 [OF ic] by blast
  ultimately show ?thesis using index_consistent_dom [OF ic] by blast
qed

text \<open>
  C3: in every reachable queue state the task of slot \<open>i\<close> is higher-priority than the
  task of each child slot \<open>2i+1\<close>, \<open>2i+2\<close> inside the list, and no child is
  higher-priority than its parent.
\<close>

theorem reachable_heap_order:
  assumes "reachable q"
  shows "\<forall>i c. c < length (heap q) \<and> (c = 2 * i + 1 \<or> c = 2 * i + 2)
           \<longrightarrow> higher_priority (heap q ! i) (heap q ! c)
               \<and> \<not> higher_priority (heap q ! c) (heap q ! i)"
proof (intro allI impI)
  fix i c assume c: "c < length (heap q) \<and> (c = 2 * i + 1 \<or> c = 2 * i + 2)"
  have inv: "pq_invar q" using assms by (rule reachable_invar)
  have cl: "c < length (heap q)" and ch: "c = 2 * i + 1 \<or> c = 2 * i + 2"
    using c by blast+
  have c0: "0 < c" using ch by arith
  have pc: "parent c = i" using ch by arith
  have ic: "i < c" using ch by arith
  have wo: "weak_order (heap q)" using inv unfolding pq_invar_def by blast
  have "\<not> higher_priority (heap q ! c) (heap q ! parent c)"
    using wo cl c0 unfolding weak_order_def by blast
  then have n: "\<not> higher_priority (heap q ! c) (heap q ! i)" unfolding pc .
  have il: "i < length (heap q)" and ne: "i \<noteq> c" using ic cl by linarith+
  have "higher_priority (heap q ! i) (heap q ! c)"
    using pq_invar_strict [OF inv il cl ne n] .
  then show "higher_priority (heap q ! i) (heap q ! c)
      \<and> \<not> higher_priority (heap q ! c) (heap q ! i)" using n by blast
qed

text \<open>A concrete reachable queue: A (priority 3), then B (priority 10), inserted into the empty queue.\<close>

definition demo_queue :: MaxHeapPriorityQueue where
  "demo_queue = snd (insert_task (snd (insert_task new_queue (demo_tasks ! 0))) (demo_tasks ! 1))"

lemma reachable_demo_queue: "reachable demo_queue"
  unfolding demo_queue_def by (intro reachable.intros)

lemma heap_demo_queue: "heap demo_queue = [demo_tasks ! 1, demo_tasks ! 0]"
  by code_simp

theorem reachable_index_consistent_witness:
  "reachable demo_queue
   \<and> heap demo_queue = [demo_tasks ! 1, demo_tasks ! 0]
   \<and> pos demo_queue (task_id (demo_tasks ! 1)) = Some 0
   \<and> pos demo_queue (task_id (demo_tasks ! 0)) = Some 1
   \<and> dom (pos demo_queue) = task_id ` set (heap demo_queue)"
proof -
  note c = reachable_index_consistent [OF reachable_demo_queue]
  have a: "\<And>i. i < length (heap demo_queue)
      \<Longrightarrow> pos demo_queue (task_id (heap demo_queue ! i)) = Some i"
    using c by blast
  have "pos demo_queue (task_id (heap demo_queue ! 0)) = Some 0"
    by (rule a) (simp add: heap_demo_queue)
  then have p0: "pos demo_queue (task_id (demo_tasks ! 1)) = Some 0"
    by (simp add: heap_demo_queue)
  have "pos demo_queue (task_id (heap demo_queue ! 1)) = Some 1"
    by (rule a) (simp add: heap_demo_queue)
  then have p1: "pos demo_queue (task_id (demo_tasks ! 0)) = Some 1"
    by (simp add: heap_demo_queue)
  have "dom (pos demo_queue) = task_id ` set (heap demo_queue)" using c by blast
  then show ?thesis
    using p0 p1 reachable_demo_queue heap_demo_queue by blast
qed

theorem reachable_heap_order_witness:
  "reachable demo_queue
   \<and> heap demo_queue = [demo_tasks ! 1, demo_tasks ! 0]
   \<and> (1::nat) < length (heap demo_queue)
   \<and> higher_priority (heap demo_queue ! 0) (heap demo_queue ! 1)
   \<and> \<not> higher_priority (heap demo_queue ! 1) (heap demo_queue ! 0)"
proof -
  have l: "(1::nat) < length (heap demo_queue) \<and> ((1::nat) = 2 * 0 + 1 \<or> (1::nat) = 2 * 0 + 2)"
    by (simp add: heap_demo_queue)
  show ?thesis
    using reachable_heap_order [OF reachable_demo_queue, rule_format, OF l]
      reachable_demo_queue heap_demo_queue l by blast
qed

lemma extract_max_facts:
  assumes inv: "pq_invar q" and h: "heap q = x # xs"
  shows "set (heap (snd (extract_max q))) = set xs"
    and "x \<notin> set xs"
    and "dom (pos (snd (extract_max q))) = dom (pos q) - {task_id x}"
    and "task_id x \<in> dom (pos q)"
    and "length (heap q) = Suc (length (heap (snd (extract_max q))))"
proof -
  have ne: "heap q \<noteq> []" using h by simp
  have ic: "index_consistent q" using inv unfolding pq_invar_def by blast
  have ms: "mset (heap (snd (extract_max q))) = mset xs"
    using extract_max_ok(3) [OF inv ne] h by simp
  show s: "set (heap (snd (extract_max q))) = set xs" using ms by (rule mset_eq_setD)
  have d: "distinct (map task_id (x # xs))"
    using index_consistent_distinct [OF ic] h by simp
  then have nid: "task_id x \<notin> task_id ` set xs" by simp
  then show "x \<notin> set xs" by blast
  have "index_consistent (snd (extract_max q))"
    using extract_max_ok(2) [OF inv ne] unfolding pq_invar_def by blast
  then have "dom (pos (snd (extract_max q))) = task_id ` set xs"
    using index_consistent_dom s by simp
  moreover have dq: "dom (pos q) = insert (task_id x) (task_id ` set xs)"
    using index_consistent_dom [OF ic] h by simp
  ultimately show "dom (pos (snd (extract_max q))) = dom (pos q) - {task_id x}"
    using nid by simp
  show "task_id x \<in> dom (pos q)" using dq by simp
  have "size (mset (heap (snd (extract_max q)))) = size (mset xs)" using ms by simp
  then show "length (heap q) = Suc (length (heap (snd (extract_max q))))"
    using h by simp
qed

lemma pq_invar_root_max:
  assumes inv: "pq_invar q" and t: "t \<in> set (heap q)" "t \<noteq> heap q ! 0"
  shows "higher_priority (heap q ! 0) t"
proof -
  obtain i where i: "i < length (heap q)" "heap q ! i = t"
    using t(1) by (auto simp: in_set_conv_nth)
  have l0: "0 < length (heap q)" using i(1) by linarith
  have i0: "0 \<noteq> i" using i(2) t(2) by metis
  have wo: "weak_order (heap q)" using inv unfolding pq_invar_def by blast
  have "\<not> higher_priority (heap q ! i) (heap q ! 0)"
    using weak_order_root [OF wo i(1)] .
  then have "higher_priority (heap q ! 0) (heap q ! i)"
    by (rule pq_invar_strict [OF inv l0 i(1) i0])
  then show ?thesis unfolding i(2) .
qed

text \<open>
  C1: on a non-empty reachable queue \<open>extract_max\<close> returns the task of slot 0, which
  is higher-priority than every other resident task; that task, and only it, leaves
  the list and the dictionary, and the queue is one shorter.
\<close>

theorem extract_max_returns_max:
  assumes "reachable q" and "\<not> is_empty q"
  shows "fst (extract_max q) = Inr (heap q ! 0)
       \<and> (\<forall>t\<in>set (heap q). t \<noteq> heap q ! 0 \<longrightarrow> higher_priority (heap q ! 0) t)
       \<and> mset (heap (snd (extract_max q))) = mset (heap q) - {#heap q ! 0#}
       \<and> heap q ! 0 \<notin> set (heap (snd (extract_max q)))
       \<and> dom (pos (snd (extract_max q))) = dom (pos q) - {task_id (heap q ! 0)}
       \<and> task_id (heap q ! 0) \<in> dom (pos q)
       \<and> len q = Suc (len (snd (extract_max q)))"
proof -
  have inv: "pq_invar q" using assms(1) by (rule reachable_invar)
  have ne: "heap q \<noteq> []" using assms(2) by (simp add: is_empty_def)
  then obtain x xs where h: "heap q = x # xs" by (cases "heap q") auto
  then have x: "heap q ! 0 = x" by simp
  have "\<forall>t\<in>set (heap q). t \<noteq> heap q ! 0 \<longrightarrow> higher_priority (heap q ! 0) t"
    using pq_invar_root_max [OF inv] by blast
  moreover have "heap q ! 0 \<notin> set (heap (snd (extract_max q)))"
    unfolding x using extract_max_facts(1,2) [OF inv h] by simp
  moreover have "dom (pos (snd (extract_max q))) = dom (pos q) - {task_id (heap q ! 0)}"
    unfolding x using extract_max_facts(3) [OF inv h] .
  moreover have "task_id (heap q ! 0) \<in> dom (pos q)"
    unfolding x using extract_max_facts(4) [OF inv h] .
  moreover have "len q = Suc (len (snd (extract_max q)))"
    unfolding len_def using extract_max_facts(5) [OF inv h] .
  ultimately show ?thesis
    using extract_max_ok(1) [OF inv ne] extract_max_ok(3) [OF inv ne] by blast
qed

theorem extract_max_returns_max_witness:
  "reachable demo_queue \<and> \<not> is_empty demo_queue
   \<and> fst (extract_max demo_queue) = Inr (demo_tasks ! 1)
   \<and> higher_priority (demo_tasks ! 1) (demo_tasks ! 0)
   \<and> heap (snd (extract_max demo_queue)) = [demo_tasks ! 0]
   \<and> dom (pos (snd (extract_max demo_queue))) = dom (pos demo_queue) - {task_id (demo_tasks ! 1)}
   \<and> len demo_queue = Suc (len (snd (extract_max demo_queue)))"
proof -
  have ne: "\<not> is_empty demo_queue" by (simp add: is_empty_def heap_demo_queue)
  have h: "heap (snd (extract_max demo_queue)) = [demo_tasks ! 0]" by code_simp
  have t: "demo_tasks ! 0 \<in> set (heap demo_queue)" "demo_tasks ! 0 \<noteq> heap demo_queue ! 0"
    by (simp_all add: heap_demo_queue demo_tasks_def)
  show ?thesis
    using extract_max_returns_max [OF reachable_demo_queue ne] reachable_demo_queue ne h t
    by (simp add: heap_demo_queue)
qed


section \<open>Failures\<close>

text \<open>
  C5: on a reachable queue, \<open>insert\<close> raises ValueError exactly when the id is
  resident; \<open>extract_max\<close> and \<open>peek_max\<close> raise IndexError exactly when the queue is
  empty; \<open>increase_key\<close> and \<open>decrease_key\<close> raise KeyError exactly when the id is
  absent and otherwise ValueError exactly when the new priority is below, respectively
  above, the current one; and a call that raises leaves the queue as it was.
\<close>

theorem raises_iff_and_unchanged:
  assumes "reachable q"
  shows "fst (insert_task q task)
           = (if task_id task \<in> dom (pos q) then Inl ValueError else Inr ())
       \<and> fst (extract_max q) = (if is_empty q then Inl IndexError else Inr (heap q ! 0))
       \<and> fst (peek_max q) = (if is_empty q then Inl IndexError else Inr (heap q ! 0))
       \<and> fst (increase_key q tid new_priority)
           = (case pos q tid of None \<Rightarrow> Inl KeyError
              | Some i \<Rightarrow> if new_priority < priority (heap q ! i) then Inl ValueError
                          else Inr ())
       \<and> fst (decrease_key q tid new_priority)
           = (case pos q tid of None \<Rightarrow> Inl KeyError
              | Some i \<Rightarrow> if new_priority > priority (heap q ! i) then Inl ValueError
                          else Inr ())
       \<and> (\<forall>e. fst (insert_task q task) = Inl e \<longrightarrow> snd (insert_task q task) = q)
       \<and> (\<forall>e. fst (extract_max q) = Inl e \<longrightarrow> snd (extract_max q) = q)
       \<and> (\<forall>e. fst (peek_max q) = Inl e \<longrightarrow> snd (peek_max q) = q)
       \<and> (\<forall>e. fst (increase_key q tid new_priority) = Inl e
              \<longrightarrow> snd (increase_key q tid new_priority) = q)
       \<and> (\<forall>e. fst (decrease_key q tid new_priority) = Inl e
              \<longrightarrow> snd (decrease_key q tid new_priority) = q)"
proof -
  have inv: "pq_invar q" using assms by (rule reachable_invar)
  then have ic: "index_consistent q" unfolding pq_invar_def by blast
  have ins: "fst (insert_task q task)
      = (if task_id task \<in> dom (pos q) then Inl ValueError else Inr ())"
    by (auto simp: insert_task_def Let_def)
  have ext: "fst (extract_max q) = (if is_empty q then Inl IndexError else Inr (heap q ! 0))"
  proof (cases "is_empty q")
    case True
    then show ?thesis by (simp add: extract_max_def)
  next
    case False
    then have "heap q \<noteq> []" by (simp add: is_empty_def)
    then show ?thesis using extract_max_ok(1) [OF inv] False by simp
  qed
  have peek: "fst (peek_max q) = (if is_empty q then Inl IndexError else Inr (heap q ! 0))"
    by (simp add: peek_max_def)
  have rng: "\<And>i. pos q tid = Some i \<Longrightarrow> i < length (heap q)"
    using index_consistentD2 [OF ic] by blast
  have inc: "fst (increase_key q tid new_priority)
      = (case pos q tid of None \<Rightarrow> Inl KeyError
         | Some i \<Rightarrow> if new_priority < priority (heap q ! i) then Inl ValueError else Inr ())"
    using rng by (auto simp: increase_key_def split: option.splits)
  have dec: "fst (decrease_key q tid new_priority)
      = (case pos q tid of None \<Rightarrow> Inl KeyError
         | Some i \<Rightarrow> if new_priority > priority (heap q ! i) then Inl ValueError else Inr ())"
    using rng by (auto simp: decrease_key_def split: option.splits)
  have a1: "\<forall>e. fst (insert_task q task) = Inl e \<longrightarrow> snd (insert_task q task) = q"
    by (auto simp: insert_task_def Let_def)
  have a2: "\<forall>e. fst (extract_max q) = Inl e \<longrightarrow> snd (extract_max q) = q"
  proof (cases "is_empty q")
    case True
    then show ?thesis by (simp add: extract_max_def)
  next
    case False
    then show ?thesis using ext by simp
  qed
  have a3: "\<forall>e. fst (peek_max q) = Inl e \<longrightarrow> snd (peek_max q) = q"
    by (simp add: peek_max_def)
  have a4: "\<forall>e. fst (increase_key q tid new_priority) = Inl e
      \<longrightarrow> snd (increase_key q tid new_priority) = q"
    by (auto simp: increase_key_def split: option.splits if_splits)
  have a5: "\<forall>e. fst (decrease_key q tid new_priority) = Inl e
      \<longrightarrow> snd (decrease_key q tid new_priority) = q"
    by (auto simp: decrease_key_def split: option.splits if_splits)
  show ?thesis using ins ext peek inc dec a1 a2 a3 a4 a5 by blast
qed

lemma pos_demo_queue:
  "pos demo_queue ''A'' = Some 1" "pos demo_queue ''B'' = Some 0" "pos demo_queue ''Z'' = None"
  by code_simp+

theorem raises_iff_and_unchanged_witness:
  "reachable demo_queue
   \<and> fst (insert_task demo_queue (demo_tasks ! 0)) = Inl ValueError
   \<and> snd (insert_task demo_queue (demo_tasks ! 0)) = demo_queue
   \<and> fst (increase_key demo_queue ''Z'' 5) = Inl KeyError
   \<and> snd (increase_key demo_queue ''Z'' 5) = demo_queue
   \<and> fst (increase_key demo_queue ''A'' 1) = Inl ValueError
   \<and> snd (increase_key demo_queue ''A'' 1) = demo_queue
   \<and> fst (decrease_key demo_queue ''A'' 4) = Inl ValueError
   \<and> snd (decrease_key demo_queue ''A'' 4) = demo_queue
   \<and> fst (extract_max demo_queue) = Inr (demo_tasks ! 1)
   \<and> fst (peek_max demo_queue) = Inr (demo_tasks ! 1)"
proof -
  have d: "task_id (demo_tasks ! 0) \<in> dom (pos demo_queue)"
    using pos_demo_queue(1) by (auto simp: demo_tasks_def)
  have ne: "\<not> is_empty demo_queue" by (simp add: is_empty_def heap_demo_queue)
  have pa: "priority (heap demo_queue ! 1) = 3"
    by (simp add: heap_demo_queue demo_tasks_def)
  note t1 = raises_iff_and_unchanged [OF reachable_demo_queue, of "demo_tasks ! 0" "''Z''" 5]
  note t2 = raises_iff_and_unchanged [OF reachable_demo_queue, of "demo_tasks ! 0" "''A''" 1]
  note t3 = raises_iff_and_unchanged [OF reachable_demo_queue, of "demo_tasks ! 0" "''A''" 4]
  show ?thesis
    using t1 t2 t3 reachable_demo_queue d ne pa
    by (simp add: pos_demo_queue heap_demo_queue)
qed


section \<open>Depth of a slot after a key change\<close>

text \<open>The depth of a slot in the implicit tree: the number of parent steps to slot 0.\<close>

function depth :: "nat \<Rightarrow> nat" where
  "depth i = (if i = 0 then 0 else Suc (depth ((i - 1) div 2)))"
  by pat_completeness auto
termination
  by (relation "measure id") auto

declare depth.simps [simp del]

lemma depth_child: "0 < c \<Longrightarrow> depth c = Suc (depth (parent c))"
  by (subst depth.simps) simp

lemma sift_up_slot:
  "idx < length (heap q) \<Longrightarrow>
     \<exists>j<length (heap q). heap (sift_up q idx) ! j = heap q ! idx \<and> depth j \<le> depth idx"
proof (induction q idx rule: sift_up.induct)
  case (1 q idx)
  show ?case
  proof (cases "idx > 0 \<and> higher_priority (heap q ! idx) (heap q ! parent idx)")
    case True
    have p: "parent idx < length (heap q)" using "1.prems" by simp
    have pl: "parent idx < length (heap (swap q idx (parent idx)))" using p by simp
    obtain j where j: "j < length (heap (swap q idx (parent idx)))"
      "heap (sift_up (swap q idx (parent idx)) (parent idx)) ! j
         = heap (swap q idx (parent idx)) ! parent idx"
      "depth j \<le> depth (parent idx)"
      using "1.IH" [OF _ _ pl] True by blast
    have "heap (swap q idx (parent idx)) ! parent idx = heap q ! idx"
      using nth_heap_swap [OF "1.prems" p p] by simp
    moreover have "depth (parent idx) \<le> depth idx" using depth_child True by simp
    moreover have "sift_up q idx = sift_up (swap q idx (parent idx)) (parent idx)"
      using True by (subst sift_up.simps) simp
    ultimately have "j < length (heap q) \<and> heap (sift_up q idx) ! j = heap q ! idx
        \<and> depth j \<le> depth idx"
      using j by simp
    then show ?thesis by blast
  next
    case False
    then have "sift_up q idx = q" by (subst sift_up.simps) auto
    then show ?thesis using "1.prems" by auto
  qed
qed

lemma sift_down_loop_slot:
  "idx < n \<Longrightarrow> n = length (heap q) \<Longrightarrow>
     \<exists>j<n. heap (sift_down_loop n q idx) ! j = heap q ! idx \<and> depth idx \<le> depth j"
proof (induction n q idx rule: sift_down_loop_induct)
  case (step n q idx)
  let ?b = "best_child n (heap q) idx"
  show ?case
  proof (cases "\<not> n \<le> 2 * idx + 1 \<and> higher_priority (heap q ! ?b) (heap q ! idx)")
    case True
    then have b: "?b < n" "idx < ?b" "parent ?b = idx"
      using best_child_bounds [of n idx "heap q"] best_child_parent [of n idx "heap q"]
      by blast+
    have bl: "?b < length (heap q)" and il: "idx < length (heap q)"
      using b(1) step.prems by simp_all
    obtain j where j: "j < n"
      "heap (sift_down_loop n (swap q idx ?b) ?b) ! j = heap (swap q idx ?b) ! ?b"
      "depth ?b \<le> depth j"
      using step.IH [OF _ _ b(1)] True step.prems(2) by auto
    have "heap (swap q idx ?b) ! ?b = heap q ! idx"
      using nth_heap_swap [OF il bl bl] by simp
    moreover have "0 < ?b" using b(2) by linarith
    then have "depth idx \<le> depth ?b" using depth_child [of ?b] b(3) by simp
    moreover have "sift_down_loop n q idx = sift_down_loop n (swap q idx ?b) ?b"
      using True by (subst sift_down_loop_unfold) simp
    ultimately have "j < n \<and> heap (sift_down_loop n q idx) ! j = heap q ! idx
        \<and> depth idx \<le> depth j"
      using j by simp
    then show ?thesis by blast
  next
    case False
    then have "sift_down_loop n q idx = q" by (subst sift_down_loop_unfold) auto
    then show ?thesis using step.prems by auto
  qed
qed

text \<open>
  C9: on a reachable queue, a successful \<open>increase_key\<close> leaves the id at a slot no
  deeper than the slot it had, and a successful \<open>decrease_key\<close> at a slot no shallower.
\<close>

theorem key_mutation_monotone:
  assumes "reachable q"
  shows "(fst (increase_key q tid new_priority) = Inr () \<longrightarrow>
            (\<exists>i j. pos q tid = Some i
               \<and> pos (snd (increase_key q tid new_priority)) tid = Some j
               \<and> depth j \<le> depth i))
       \<and> (fst (decrease_key q tid new_priority) = Inr () \<longrightarrow>
            (\<exists>i j. pos q tid = Some i
               \<and> pos (snd (decrease_key q tid new_priority)) tid = Some j
               \<and> depth i \<le> depth j))"
proof (intro conjI impI)
  have inv: "pq_invar q" using assms by (rule reachable_invar)
  then have ic: "index_consistent q" unfolding pq_invar_def by blast
  {
    assume ok: "fst (increase_key q tid new_priority) = Inr ()"
    then obtain i where i: "pos q tid = Some i" "priority (heap q ! i) \<le> new_priority"
      by (auto simp: increase_key_def split: option.splits if_splits)
    let ?q1 = "q\<lparr>heap := (heap q)[i := (heap q ! i)\<lparr>priority := new_priority\<rparr>]\<rparr>"
    let ?r = "snd (increase_key q tid new_priority)"
    have il: "i < length (heap q)" and id: "task_id (heap q ! i) = tid"
      using index_consistentD2 [OF ic i(1)] by blast+
    have r: "?r = sift_up ?q1 i" using increase_key_ok(1) [OF inv i] by simp
    have i1: "i < length (heap ?q1)" using il by simp
    obtain j where j: "j < length (heap ?q1)" "heap (sift_up ?q1 i) ! j = heap ?q1 ! i"
      "depth j \<le> depth i"
      using sift_up_slot [OF i1] by blast
    have tj: "task_id (heap ?r ! j) = tid" using j(2) r il id by simp
    have icr: "index_consistent ?r"
      using increase_key_ok(2) [OF inv i] unfolding pq_invar_def by blast
    have jl: "j < length (heap ?r)" using j(1) r by simp
    have "pos ?r (task_id (heap ?r ! j)) = Some j" using icr jl by (rule index_consistentD1)
    then have "pos ?r tid = Some j" unfolding tj .
    then show "\<exists>i j. pos q tid = Some i \<and> pos ?r tid = Some j \<and> depth j \<le> depth i"
      using i(1) j(3) by blast
  }
  {
    assume ok: "fst (decrease_key q tid new_priority) = Inr ()"
    then obtain i where i: "pos q tid = Some i" "new_priority \<le> priority (heap q ! i)"
      by (auto simp: decrease_key_def split: option.splits if_splits)
    let ?q1 = "q\<lparr>heap := (heap q)[i := (heap q ! i)\<lparr>priority := new_priority\<rparr>]\<rparr>"
    let ?r = "snd (decrease_key q tid new_priority)"
    have il: "i < length (heap q)" and id: "task_id (heap q ! i) = tid"
      using index_consistentD2 [OF ic i(1)] by blast+
    have r: "?r = sift_down_loop (length (heap ?q1)) ?q1 i"
      using decrease_key_ok(1) [OF inv i] by (simp add: sift_down_def)
    have i1: "i < length (heap ?q1)" using il by simp
    obtain j where j: "j < length (heap ?q1)"
      "heap (sift_down_loop (length (heap ?q1)) ?q1 i) ! j = heap ?q1 ! i"
      "depth i \<le> depth j"
      using sift_down_loop_slot [OF i1 refl] by blast
    have tj: "task_id (heap ?r ! j) = tid" using j(2) r il id by simp
    have icr: "index_consistent ?r"
      using decrease_key_ok(2) [OF inv i] unfolding pq_invar_def by blast
    have jl: "j < length (heap ?r)" using j(1) r by simp
    have "pos ?r (task_id (heap ?r ! j)) = Some j" using icr jl by (rule index_consistentD1)
    then have "pos ?r tid = Some j" unfolding tj .
    then show "\<exists>i j. pos q tid = Some i \<and> pos ?r tid = Some j \<and> depth i \<le> depth j"
      using i(1) j(3) by blast
  }
qed

lemma depth_0_1: "depth 0 = 0" "depth 1 = 1" "depth (Suc 0) = 1"
  by code_simp+

lemma pos_demo_queue_changed:
  "pos (snd (increase_key demo_queue ''A'' 20)) ''A'' = Some 0"
  "pos (snd (decrease_key demo_queue ''B'' 1)) ''B'' = Some 1"
  "fst (increase_key demo_queue ''A'' 20) = Inr ()"
  "fst (decrease_key demo_queue ''B'' 1) = Inr ()"
  by code_simp+

theorem key_mutation_monotone_witness:
  "reachable demo_queue
   \<and> fst (increase_key demo_queue ''A'' 20) = Inr ()
   \<and> pos demo_queue ''A'' = Some 1
   \<and> pos (snd (increase_key demo_queue ''A'' 20)) ''A'' = Some 0
   \<and> depth 0 \<le> depth 1
   \<and> fst (decrease_key demo_queue ''B'' 1) = Inr ()
   \<and> pos demo_queue ''B'' = Some 0
   \<and> pos (snd (decrease_key demo_queue ''B'' 1)) ''B'' = Some 1"
  using key_mutation_monotone [OF reachable_demo_queue, of "''A''" 20]
    key_mutation_monotone [OF reachable_demo_queue, of "''B''" 1]
    reachable_demo_queue
  by (simp add: pos_demo_queue pos_demo_queue_changed depth_0_1)


section \<open>Round trip: insert all, extract all\<close>

lemma length_extract_max:
  assumes "\<not> is_empty q" "(Inr t, q') = extract_max q"
  shows "length (heap q') < length (heap q)"
proof -
  have ne: "heap q \<noteq> []" using assms(1) by (simp add: is_empty_def)
  have "length (heap q') = length (butlast (heap q))"
    using assms ne
    by (auto simp: extract_max_def Let_def sift_down_def simp del: length_butlast
        split: if_splits)
  then show ?thesis using ne by (cases "heap q") simp_all
qed

lemma extract_all_decreases:
  assumes "\<not> is_empty q" "(x, y) = extract_max q" "x = Inr b"
  shows "(y, q) \<in> measure (\<lambda>q. length (heap q))"
proof -
  have "(Inr b, y) = extract_max q" using assms(2) unfolding assms(3) .
  then have "length (heap y) < length (heap q)" by (rule length_extract_max [OF assms(1)])
  then show ?thesis by simp
qed

text \<open>
  Modelled from the spec: the loop of the round trip, "repeatedly calling extractMax"
  until the queue is empty and collecting the results in order; the repository has no
  function for it. Each step is the source's \<open>is_empty\<close> and \<open>extract_max\<close>.
\<close>

function extract_all :: "MaxHeapPriorityQueue \<Rightarrow> error + Task list" where
  "extract_all q =
     (if is_empty q then Inr []
      else
        (case extract_max q of
           (Inl e, q') \<Rightarrow> Inl e
         | (Inr t, q') \<Rightarrow>
             (case extract_all q' of Inl e \<Rightarrow> Inl e | Inr ts \<Rightarrow> Inr (t # ts))))"
  by pat_completeness auto
termination
  apply (relation "measure (\<lambda>q. length (heap q))")
   apply simp
  apply (rule extract_all_decreases; assumption)
  done

declare extract_all.simps [simp del]

text \<open>
  The spec's reference result: the tasks sorted so that each one is higher-priority
  than all that follow, by insertion.
\<close>

fun spec_insert_descending :: "Task \<Rightarrow> Task list \<Rightarrow> Task list" where
  "spec_insert_descending x [] = [x]"
| "spec_insert_descending x (y # ys) =
     (if higher_priority x y then x # y # ys else y # spec_insert_descending x ys)"

definition spec_sort_descending :: "Task list \<Rightarrow> Task list" where
  "spec_sort_descending ts = foldr spec_insert_descending ts []"

lemma mset_spec_insert_descending:
  "mset (spec_insert_descending x ys) = add_mset x (mset ys)"
  by (induction ys) simp_all

lemma mset_spec_sort_descending: "mset (spec_sort_descending ts) = mset ts"
  by (induction ts) (simp_all add: spec_sort_descending_def mset_spec_insert_descending)

lemma set_spec_insert_descending: "set (spec_insert_descending x ys) = insert x (set ys)"
  using mset_spec_insert_descending [of x ys] by (metis set_mset_add_mset_insert set_mset_mset)

lemma sorted_spec_insert_descending:
  assumes "sorted_wrt higher_priority ys" "\<forall>y\<in>set ys. task_id y \<noteq> task_id x"
  shows "sorted_wrt higher_priority (spec_insert_descending x ys)"
  using assms
proof (induction ys)
  case Nil
  then show ?case by simp
next
  case (Cons y ys)
  show ?case
  proof (cases "higher_priority x y")
    case True
    then have "\<forall>z\<in>set ys. higher_priority x z"
      using Cons.prems(1) hp_trans by auto
    then show ?thesis using True Cons.prems(1) by simp
  next
    case False
    then have yx: "higher_priority y x" using Cons.prems(2) hp_total [of y x] by auto
    have "sorted_wrt higher_priority (spec_insert_descending x ys)"
      using Cons.IH Cons.prems by simp
    then show ?thesis
      using False yx Cons.prems(1) by (simp add: set_spec_insert_descending)
  qed
qed

lemma sorted_spec_sort_descending:
  "distinct (map task_id ts) \<Longrightarrow> sorted_wrt higher_priority (spec_sort_descending ts)"
proof (induction ts)
  case Nil
  show ?case unfolding spec_sort_descending_def by simp
next
  case (Cons t ts)
  have "distinct (task_id t # map task_id ts)" using Cons.prems by (simp only: list.simps(9))
  then have n: "task_id t \<notin> set (map task_id ts)" and d: "distinct (map task_id ts)"
    by (simp_all only: distinct.simps) blast+
  have s: "sorted_wrt higher_priority (spec_sort_descending ts)"
    using d by (rule Cons.IH)
  have se: "set (spec_sort_descending ts) = set ts"
    using mset_spec_sort_descending [of ts] by (rule mset_eq_setD)
  have n': "task_id t \<notin> task_id ` set ts" using n unfolding set_map .
  have "\<forall>y\<in>set (spec_sort_descending ts). task_id y \<noteq> task_id t"
  proof
    fix y assume "y \<in> set (spec_sort_descending ts)"
    then have "y \<in> set ts" unfolding se .
    then have in_ids: "task_id y \<in> task_id ` set ts" by (rule imageI)
    show "task_id y \<noteq> task_id t"
    proof
      assume "task_id y = task_id t"
      then have "task_id t \<in> task_id ` set ts" using in_ids by (simp only:)
      then show False using n' by (rule rev_notE) 
    qed
  qed
  then have "sorted_wrt higher_priority (spec_insert_descending t (spec_sort_descending ts))"
    by (rule sorted_spec_insert_descending [OF s])
  then show ?case unfolding spec_sort_descending_def by (simp only: foldr.simps comp_apply)
qed

lemma sorted_descending_unique:
  "sorted_wrt higher_priority xs \<Longrightarrow> sorted_wrt higher_priority ys
     \<Longrightarrow> mset xs = mset ys \<Longrightarrow> xs = ys"
proof (induction xs arbitrary: ys)
  case Nil
  then show ?case by simp
next
  case (Cons x xs)
  then obtain y ys' where ys: "ys = y # ys'" by (cases ys) auto
  have xy: "x = y"
  proof (rule ccontr)
    assume ne: "x \<noteq> y"
    have "x \<in># mset ys" using Cons.prems(3) by (metis list.set_intros(1) set_mset_mset)
    then have "x \<in> set ys'" using ne ys by simp
    then have "higher_priority y x" using Cons.prems(2) ys by simp
    moreover have "y \<in># mset (x # xs)" using Cons.prems(3) ys by simp
    then have "y \<in> set xs" using ne by simp
    then have "higher_priority x y" using Cons.prems(1) by simp
    ultimately show False using hp_asym by blast
  qed
  then have "mset xs = mset ys'" using Cons.prems(3) ys by simp
  then have "xs = ys'" using Cons.IH Cons.prems(1,2) ys by simp
  then show ?case using xy ys by simp
qed

lemma insert_all_ok:
  "pq_invar q \<Longrightarrow> distinct (map task_id ts) \<Longrightarrow> \<forall>t\<in>set ts. pos q (task_id t) = None
     \<Longrightarrow> fst (insert_all q ts) = Inr ()
         \<and> pq_invar (snd (insert_all q ts))
         \<and> mset (heap (snd (insert_all q ts))) = mset (heap q) + mset ts"
proof (induction ts arbitrary: q)
  case Nil
  then show ?case by simp
next
  case (Cons t ts)
  let ?q1 = "snd (insert_task q t)"
  have new: "pos q (task_id t) = None" using Cons.prems(3) by simp
  have ok: "fst (insert_task q t) = Inr ()" and inv1: "pq_invar ?q1"
    and ms1: "mset (heap ?q1) = add_mset t (mset (heap q))"
    using insert_task_ok [OF Cons.prems(1) new] by blast+
  have eq: "insert_all q (t # ts) = insert_all ?q1 ts"
    using ok by (cases "insert_task q t") simp
  have "distinct (task_id t # map task_id ts)" using Cons.prems(2) by (simp only: list.simps(9))
  then have n: "task_id t \<notin> set (map task_id ts)" and d: "distinct (map task_id ts)"
    by (simp_all only: distinct.simps) blast+
  have ic: "index_consistent q" and ic1: "index_consistent ?q1"
    using Cons.prems(1) inv1 unfolding pq_invar_def by blast+
  have "set (heap ?q1) = insert t (set (heap q))"
    using ms1 by (metis set_mset_add_mset_insert set_mset_mset)
  then have dom1: "dom (pos ?q1) = insert (task_id t) (dom (pos q))"
    using index_consistent_dom [OF ic] index_consistent_dom [OF ic1] by simp
  have free: "\<forall>u\<in>set ts. pos ?q1 (task_id u) = None"
  proof
    fix u assume u: "u \<in> set ts"
    then have "task_id u \<in> set (map task_id ts)" by simp
    then have "task_id u \<noteq> task_id t" using n by metis
    moreover have "task_id u \<notin> dom (pos q)" using Cons.prems(3) u by (simp add: domIff)
    ultimately have "task_id u \<notin> dom (pos ?q1)" unfolding dom1 by simp
    then show "pos ?q1 (task_id u) = None" by (simp add: domIff)
  qed
  have "fst (insert_all ?q1 ts) = Inr ()
      \<and> pq_invar (snd (insert_all ?q1 ts))
      \<and> mset (heap (snd (insert_all ?q1 ts))) = mset (heap ?q1) + mset ts"
    using Cons.IH [OF inv1 d free] .
  then show ?case unfolding eq ms1 by simp
qed

lemma extract_all_ok:
  "pq_invar q \<Longrightarrow>
     \<exists>out. extract_all q = Inr out \<and> sorted_wrt higher_priority out
       \<and> mset out = mset (heap q)"
proof (induction "length (heap q)" arbitrary: q)
  case 0
  then have "is_empty q" by (simp add: is_empty_def)
  then have "extract_all q = Inr []" by (subst extract_all.simps) simp
  then show ?case using 0 by simp
next
  case (Suc n)
  then obtain x xs where h: "heap q = x # xs" by (cases "heap q") auto
  then have ne: "heap q \<noteq> []" and nem: "\<not> is_empty q" by (simp_all add: is_empty_def)
  let ?q' = "snd (extract_max q)"
  have x: "heap q ! 0 = x" using h by simp
  have ok: "fst (extract_max q) = Inr x" and inv': "pq_invar ?q'"
    and ms: "mset (heap ?q') = mset xs"
    using extract_max_ok [OF Suc.prems ne] h by simp_all
  have "n = length (heap ?q')" using extract_max_facts(5) [OF Suc.prems h] Suc.hyps(2) by simp
  then obtain out where out: "extract_all ?q' = Inr out" "sorted_wrt higher_priority out"
    "mset out = mset (heap ?q')"
    using Suc.hyps(1) inv' by blast
  have eq: "extract_all q = Inr (x # out)"
    using nem ok out(1) by (subst extract_all.simps) (cases "extract_max q", simp)
  have so: "set out = set xs" using out(3) ms by (metis set_mset_mset)
  have "\<forall>y\<in>set out. higher_priority x y"
  proof
    fix y assume "y \<in> set out"
    then have y: "y \<in> set xs" unfolding so .
    then have "y \<in> set (heap q)" using h by simp
    moreover have "y \<noteq> heap q ! 0" using y extract_max_facts(2) [OF Suc.prems h] x by metis
    ultimately show "higher_priority x y" using pq_invar_root_max [OF Suc.prems] x by metis
  qed
  then have "sorted_wrt higher_priority (x # out)" using out(2) by simp
  moreover have "mset (x # out) = mset (heap q)" using out(3) ms h by simp
  ultimately show ?case using eq by blast
qed

text \<open>
  C4: for tasks with pairwise distinct ids, inserting them in any order into the empty
  queue and extracting until the queue is empty returns the tasks sorted descending
  under the comparator: the same sequence for every insertion order, each task
  higher-priority than all that follow it.
\<close>

theorem round_trip_sorts:
  assumes "distinct (map task_id ts)" and "mset ts' = mset ts"
  shows "fst (insert_all new_queue ts') = Inr ()
       \<and> extract_all (snd (insert_all new_queue ts')) = Inr (spec_sort_descending ts)
       \<and> sorted_wrt higher_priority (spec_sort_descending ts)
       \<and> mset (spec_sort_descending ts) = mset ts"
proof -
  have "mset (map task_id ts') = mset (map task_id ts)" using assms(2) by simp
  then have d': "distinct (map task_id ts')"
    using assms(1) mset_eq_imp_distinct_iff by blast
  have free: "\<forall>t\<in>set ts'. pos new_queue (task_id t) = None" by (simp add: new_queue_def)
  let ?q = "snd (insert_all new_queue ts')"
  have ins: "fst (insert_all new_queue ts') = Inr ()" "pq_invar ?q"
    "mset (heap ?q) = mset (heap new_queue) + mset ts'"
    using insert_all_ok [OF pq_invar_new d' free] by blast+
  then have ms: "mset (heap ?q) = mset ts" using assms(2) by (simp add: new_queue_def)
  obtain out where out: "extract_all ?q = Inr out" "sorted_wrt higher_priority out"
    "mset out = mset (heap ?q)"
    using extract_all_ok [OF ins(2)] by blast
  have s: "sorted_wrt higher_priority (spec_sort_descending ts)"
    using assms(1) by (rule sorted_spec_sort_descending)
  have "mset out = mset (spec_sort_descending ts)"
    using out(3) ms mset_spec_sort_descending by simp
  then have "out = spec_sort_descending ts"
    using sorted_descending_unique [OF out(2) s] by blast
  then show ?thesis using ins(1) out(1) s mset_spec_sort_descending by simp
qed

theorem round_trip_sorts_witness:
  "distinct (map task_id [demo_tasks ! 0, demo_tasks ! 1, demo_tasks ! 2])
   \<and> mset [demo_tasks ! 2, demo_tasks ! 0, demo_tasks ! 1]
       = mset [demo_tasks ! 0, demo_tasks ! 1, demo_tasks ! 2]
   \<and> extract_all (snd (insert_all new_queue [demo_tasks ! 2, demo_tasks ! 0, demo_tasks ! 1]))
       = Inr [demo_tasks ! 1, demo_tasks ! 2, demo_tasks ! 0]
   \<and> spec_sort_descending [demo_tasks ! 0, demo_tasks ! 1, demo_tasks ! 2]
       = [demo_tasks ! 1, demo_tasks ! 2, demo_tasks ! 0]"
proof -
  have d: "distinct (map task_id [demo_tasks ! 0, demo_tasks ! 1, demo_tasks ! 2])"
    by (simp add: demo_tasks_def)
  have m: "mset [demo_tasks ! 2, demo_tasks ! 0, demo_tasks ! 1]
      = mset [demo_tasks ! 0, demo_tasks ! 1, demo_tasks ! 2]"
    by simp
  have s: "spec_sort_descending [demo_tasks ! 0, demo_tasks ! 1, demo_tasks ! 2]
      = [demo_tasks ! 1, demo_tasks ! 2, demo_tasks ! 0]"
    by code_simp
  show ?thesis using round_trip_sorts [OF d m] d m s by simp
qed


section \<open>The driver: one extraction per time step\<close>

text \<open>One \<open>setdefault(...).append(task)\<close> step, and \<open>by_time.get(t, [])\<close>.\<close>

definition by_time_step :: "(int \<rightharpoonup> Task list) \<Rightarrow> Task \<Rightarrow> (int \<rightharpoonup> Task list)" where
  "by_time_step m task =
     m(arrival_time task \<mapsto> (case m (arrival_time task) of None \<Rightarrow> [] | Some l \<Rightarrow> l) @ [task])"

definition get_list :: "(int \<rightharpoonup> Task list) \<Rightarrow> int \<Rightarrow> Task list" where
  "get_list m t = (case m t of None \<Rightarrow> [] | Some l \<Rightarrow> l)"

lemma get_list_step:
  "get_list (by_time_step m a) t = get_list m t @ (if arrival_time a = t then [a] else [])"
  by (simp add: get_list_def by_time_step_def)

lemma by_time_fold:
  "get_list (foldl by_time_step m tasks) t
     = get_list m t @ filter (\<lambda>x. arrival_time x = t) tasks"
proof (induction tasks arbitrary: m)
  case Nil
  show ?case by simp
next
  case (Cons a tasks)
  have "get_list (foldl by_time_step (by_time_step m a) tasks) t
      = get_list (by_time_step m a) t @ filter (\<lambda>x. arrival_time x = t) tasks"
    by (rule Cons.IH)
  then show ?case by (simp add: get_list_step)
qed

lemma by_time_of_get:
  "(case by_time_of tasks t of None \<Rightarrow> [] | Some l \<Rightarrow> l)
     = filter (\<lambda>x. arrival_time x = t) tasks"
proof -
  have "by_time_of tasks = foldl by_time_step Map.empty tasks"
    unfolding by_time_of_def by_time_step_def ..
  moreover have "get_list (foldl by_time_step Map.empty tasks) t
      = get_list Map.empty t @ filter (\<lambda>x. arrival_time x = t) tasks"
    by (rule by_time_fold)
  moreover have "get_list Map.empty t = []" by (simp add: get_list_def)
  ultimately have "get_list (by_time_of tasks) t = filter (\<lambda>x. arrival_time x = t) tasks"
    by simp
  then show ?thesis unfolding get_list_def .
qed

text \<open>
  What the spec asks of one timeline entry \<open>(t, x)\<close>, given the set \<open>D\<close> of tasks
  extracted before it: \<open>x\<close> is an input task that has arrived and was not extracted
  before, and it is higher-priority than every other such task.
\<close>

definition entry_ok :: "Task list \<Rightarrow> Task set \<Rightarrow> int \<Rightarrow> Task \<Rightarrow> bool" where
  "entry_ok tasks D t x \<longleftrightarrow>
     0 \<le> t \<and> x \<in> set tasks \<and> arrival_time x \<le> t \<and> x \<notin> D
     \<and> (\<forall>y\<in>set tasks. arrival_time y \<le> t \<and> y \<notin> D \<and> y \<noteq> x \<longrightarrow> higher_priority x y)"

definition timeline_ok :: "Task list \<Rightarrow> (int \<times> Task) list \<Rightarrow> bool" where
  "timeline_ok tasks tline \<longleftrightarrow>
     sorted_wrt (<) (map fst tline)
     \<and> (\<forall>k<length tline. entry_ok tasks (snd ` set (take k tline)) (fst (tline ! k)) (snd (tline ! k)))"

lemma timeline_ok_Nil: "timeline_ok tasks []"
  by (simp add: timeline_ok_def)

lemma timeline_ok_snoc:
  assumes ok: "timeline_ok tasks tline" and lt: "\<forall>e\<in>set tline. fst e < t"
    and e: "entry_ok tasks (snd ` set tline) t x"
  shows "timeline_ok tasks (tline @ [(t, x)])"
  unfolding timeline_ok_def
proof (intro conjI allI impI)
  have "sorted_wrt (<) (map fst tline)" using ok unfolding timeline_ok_def by blast
  then show "sorted_wrt (<) (map fst (tline @ [(t, x)]))"
    using lt by (simp add: sorted_wrt_append)
next
  fix k assume "k < length (tline @ [(t, x)])"
  then have "k < length tline \<or> k = length tline" by auto
  then show "entry_ok tasks (snd ` set (take k (tline @ [(t, x)])))
      (fst ((tline @ [(t, x)]) ! k)) (snd ((tline @ [(t, x)]) ! k))"
  proof
    assume k: "k < length tline"
    then have "entry_ok tasks (snd ` set (take k tline)) (fst (tline ! k)) (snd (tline ! k))"
      using ok unfolding timeline_ok_def by blast
    then show ?thesis using k by (simp add: nth_append)
  next
    assume "k = length tline"
    then show ?thesis using e by simp
  qed
qed

definition sim_inv ::
  "Task list \<Rightarrow> int \<Rightarrow> MaxHeapPriorityQueue \<Rightarrow> (int \<times> Task) list \<Rightarrow> bool" where
  "sim_inv tasks t q tline \<longleftrightarrow>
     pq_invar q
     \<and> set (heap q) = {y \<in> set tasks. arrival_time y < t \<and> y \<notin> snd ` set tline}
     \<and> timeline_ok tasks tline
     \<and> (\<forall>e\<in>set tline. fst e < t)"

lemma timeline_ok_arrived:
  assumes ok: "timeline_ok tasks tline" and lt: "\<forall>e\<in>set tline. fst e < t"
    and y: "y \<in> snd ` set tline"
  shows "arrival_time y < t"
proof -
  obtain e where e: "e \<in> set tline" "y = snd e" using y by blast
  then obtain k where k: "k < length tline" "tline ! k = e" by (auto simp: in_set_conv_nth)
  have "entry_ok tasks (snd ` set (take k tline)) (fst (tline ! k)) (snd (tline ! k))"
    using ok k(1) unfolding timeline_ok_def by blast
  then have "arrival_time (snd e) \<le> fst e" unfolding entry_ok_def k(2) by blast
  moreover have "fst e < t" using lt e(1) by blast
  ultimately show ?thesis unfolding e(2) by linarith
qed

lemma sim_step:
  assumes d: "distinct (map task_id tasks)" and inv: "sim_inv tasks t q tline" and t0: "0 \<le> t"
    and B: "B = filter (\<lambda>x. arrival_time x = t) tasks"
  shows "fst (insert_all q B) = Inr ()"
    and "is_empty (snd (insert_all q B)) \<Longrightarrow> sim_inv tasks (t + 1) (snd (insert_all q B)) tline"
    and "\<not> is_empty (snd (insert_all q B)) \<Longrightarrow>
          \<exists>x. fst (extract_max (snd (insert_all q B))) = Inr x
            \<and> sim_inv tasks (t + 1) (snd (extract_max (snd (insert_all q B))))
                  (tline @ [(t, x)])"
proof -
  let ?D = "snd ` set tline"
  let ?q1 = "snd (insert_all q B)"
  have pi: "pq_invar q"
    and hs: "set (heap q) = {y \<in> set tasks. arrival_time y < t \<and> y \<notin> ?D}"
    and ok: "timeline_ok tasks tline" and lt: "\<forall>e\<in>set tline. fst e < t"
    using inv unfolding sim_inv_def by blast+
  have ic: "index_consistent q" using pi unfolding pq_invar_def by blast
  have "inj_on task_id (set tasks)" using d by (simp add: distinct_map)
  then have inj: "\<And>a b. a \<in> set tasks \<Longrightarrow> b \<in> set tasks \<Longrightarrow> task_id a = task_id b \<Longrightarrow> a = b"
    by (rule inj_onD)
  have setB: "set B = {y \<in> set tasks. arrival_time y = t}" unfolding B by auto
  have dB: "distinct (map task_id B)" unfolding B using d by (rule distinct_map_filter)
  have free: "\<forall>u\<in>set B. pos q (task_id u) = None"
  proof
    fix u assume "u \<in> set B"
    then have u: "u \<in> set tasks" "arrival_time u = t" unfolding setB by blast+
    show "pos q (task_id u) = None"
    proof (rule ccontr)
      assume "pos q (task_id u) \<noteq> None"
      then obtain i where i: "pos q (task_id u) = Some i" by blast
      have il: "i < length (heap q)" and id: "task_id (heap q ! i) = task_id u"
        using index_consistentD2 [OF ic i] by blast+
      have "heap q ! i \<in> set (heap q)" using il by (rule nth_mem)
      then have hi: "heap q ! i \<in> set tasks" "arrival_time (heap q ! i) < t"
        unfolding hs by blast+
      have "heap q ! i = u" using inj [OF hi(1) u(1) id] .
      then show False using hi(2) u(2) by simp
    qed
  qed
  have io: "fst (insert_all q B) = Inr ()" "pq_invar ?q1"
    "mset (heap ?q1) = mset (heap q) + mset B"
    using insert_all_ok [OF pi dB free] by blast+
  show "fst (insert_all q B) = Inr ()" by (rule io(1))
  have "set_mset (mset (heap ?q1)) = set_mset (mset (heap q) + mset B)"
    by (simp only: io(3))
  then have s1: "set (heap ?q1) = set (heap q) \<union> set B" by simp
  have Dlt: "\<And>y. y \<in> ?D \<Longrightarrow> arrival_time y < t"
    using timeline_ok_arrived [OF ok lt] by blast
  have H1: "set (heap ?q1) = {y \<in> set tasks. arrival_time y < t + 1 \<and> y \<notin> ?D}"
  proof (rule set_eqI)
    fix y
    show "y \<in> set (heap ?q1) \<longleftrightarrow> y \<in> {y \<in> set tasks. arrival_time y < t + 1 \<and> y \<notin> ?D}"
      unfolding s1 hs setB using Dlt [of y] by auto
  qed
  have lt1: "\<forall>e\<in>set tline. fst e < t + 1" using lt by auto
  show "sim_inv tasks (t + 1) ?q1 tline" if "is_empty ?q1"
    unfolding sim_inv_def using io(2) H1 ok lt1 by blast
  show "\<exists>x. fst (extract_max ?q1) = Inr x
      \<and> sim_inv tasks (t + 1) (snd (extract_max ?q1)) (tline @ [(t, x)])"
    if ne: "\<not> is_empty ?q1"
  proof -
    let ?q2 = "snd (extract_max ?q1)"
    have nn: "heap ?q1 \<noteq> []" using ne by (simp add: is_empty_def)
    then obtain x xs where h: "heap ?q1 = x # xs" by (cases "heap ?q1") auto
    then have x0: "heap ?q1 ! 0 = x" by simp
    have ex: "fst (extract_max ?q1) = Inr x"
      using extract_max_ok(1) [OF io(2) nn] x0 by simp
    have inv2: "pq_invar ?q2" using extract_max_ok(2) [OF io(2) nn] .
    have set2: "set (heap ?q2) = set xs" and xn: "x \<notin> set xs"
      using extract_max_facts(1,2) [OF io(2) h] by blast+
    have "x \<in> set (heap ?q1)" using h by simp
    then have xin: "x \<in> set tasks" "arrival_time x < t + 1" "x \<notin> ?D"
      unfolding H1 by blast+
    have best: "\<forall>y\<in>set tasks. arrival_time y \<le> t \<and> y \<notin> ?D \<and> y \<noteq> x
        \<longrightarrow> higher_priority x y"
    proof (intro ballI impI)
      fix y assume y: "y \<in> set tasks" "arrival_time y \<le> t \<and> y \<notin> ?D \<and> y \<noteq> x"
      then have "y \<in> {y \<in> set tasks. arrival_time y < t + 1 \<and> y \<notin> ?D}" by simp
      then have "y \<in> set (heap ?q1)" unfolding H1 .
      moreover have "y \<noteq> heap ?q1 ! 0" using y(2) x0 by simp
      ultimately have "higher_priority (heap ?q1 ! 0) y" by (rule pq_invar_root_max [OF io(2)])
      then show "higher_priority x y" unfolding x0 .
    qed
    have "entry_ok tasks ?D t x"
      unfolding entry_ok_def using t0 xin best by simp
    then have ok2: "timeline_ok tasks (tline @ [(t, x)])"
      by (rule timeline_ok_snoc [OF ok lt])
    have D2: "snd ` set (tline @ [(t, x)]) = insert x ?D" by simp
    have sx: "set (heap ?q1) = insert x (set xs)" using h by simp
    have H2: "set (heap ?q2)
        = {y \<in> set tasks. arrival_time y < t + 1 \<and> y \<notin> snd ` set (tline @ [(t, x)])}"
    proof (rule set_eqI)
      fix y
      have "y \<in> set xs \<longleftrightarrow> y \<in> set (heap ?q1) \<and> y \<noteq> x"
        unfolding sx using xn by auto
      then show "y \<in> set (heap ?q2) \<longleftrightarrow>
          y \<in> {y \<in> set tasks. arrival_time y < t + 1 \<and> y \<notin> snd ` set (tline @ [(t, x)])}"
        unfolding set2 D2 H1 by auto
    qed
    have lt2: "\<forall>e\<in>set (tline @ [(t, x)]). fst e < t + 1" using lt by auto
    have "sim_inv tasks (t + 1) ?q2 (tline @ [(t, x)])"
      unfolding sim_inv_def using inv2 H2 ok2 lt2 by blast
    then show ?thesis using ex by blast
  qed
qed

lemma sim_loop_Cons:
  assumes "fst (insert_all q B) = Inr ()" "(case bt t of None \<Rightarrow> [] | Some l \<Rightarrow> l) = B"
  shows "sim_loop bt (t # ts) q tline =
           (if \<not> is_empty (snd (insert_all q B))
            then (case fst (extract_max (snd (insert_all q B))) of
                    Inl e \<Rightarrow> Inl e
                  | Inr x \<Rightarrow> sim_loop bt ts (snd (extract_max (snd (insert_all q B))))
                              (tline @ [(t, x)]))
            else sim_loop bt ts (snd (insert_all q B)) tline)"
proof -
  obtain u q1 where i: "insert_all q B = (Inr u, q1)"
    using assms(1) by (cases "insert_all q B") auto
  obtain r q2 where e: "extract_max q1 = (r, q2)" by (cases "extract_max q1") auto
  show ?thesis
    unfolding sim_loop.simps assms(2) i by (cases r) (simp_all add: e)
qed

lemma sim_loop_ok:
  assumes d: "distinct (map task_id tasks)"
  shows "sim_inv tasks t q tline \<Longrightarrow> 0 \<le> t \<Longrightarrow> t \<le> m + 1 \<Longrightarrow>
     \<exists>out. sim_loop (by_time_of tasks) [t..m] q tline = Inr out
       \<and> timeline_ok tasks out \<and> (\<forall>e\<in>set out. fst e \<le> m)"
proof (induction "nat (m + 1 - t)" arbitrary: t q tline)
  case 0
  then have tm: "t = m + 1" by simp
  then have "[t..m] = []" by simp
  then have "sim_loop (by_time_of tasks) [t..m] q tline = Inr tline" by simp
  moreover have "timeline_ok tasks tline" "\<forall>e\<in>set tline. fst e < t"
    using "0.prems"(1) unfolding sim_inv_def by blast+
  ultimately show ?case using tm by auto
next
  case (Suc n)
  then have tm: "t \<le> m" by linarith
  then have up: "[t..m] = t # [t + 1..m]" by (rule upto_rec1)
  define B where "B = filter (\<lambda>x. arrival_time x = t) tasks"
  note st = sim_step [OF d Suc.prems(1) Suc.prems(2) B_def]
  have bt: "(case by_time_of tasks t of None \<Rightarrow> [] | Some l \<Rightarrow> l) = B"
    unfolding B_def by (rule by_time_of_get)
  note unf = sim_loop_Cons [of q B "by_time_of tasks" t "[t + 1..m]" tline, OF st(1) bt]
  have n: "n = nat (m + 1 - (t + 1))" using Suc.hyps(2) by linarith
  have t1: "0 \<le> t + 1" "t + 1 \<le> m + 1" using Suc.prems(2) tm by linarith+
  show ?case
  proof (cases "is_empty (snd (insert_all q B))")
    case True
    have "\<exists>out. sim_loop (by_time_of tasks) [t + 1..m] (snd (insert_all q B)) tline = Inr out
        \<and> timeline_ok tasks out \<and> (\<forall>e\<in>set out. fst e \<le> m)"
      using Suc.hyps(1) [OF n st(2) [OF True] t1] .
    then show ?thesis unfolding up unf using True by simp
  next
    case False
    obtain x where x: "fst (extract_max (snd (insert_all q B))) = Inr x"
      "sim_inv tasks (t + 1) (snd (extract_max (snd (insert_all q B)))) (tline @ [(t, x)])"
      using st(3) [OF False] by blast
    have "\<exists>out. sim_loop (by_time_of tasks) [t + 1..m]
          (snd (extract_max (snd (insert_all q B)))) (tline @ [(t, x)]) = Inr out
        \<and> timeline_ok tasks out \<and> (\<forall>e\<in>set out. fst e \<le> m)"
      using Suc.hyps(1) [OF n x(2) t1] .
    then show ?thesis unfolding up unf using False x(1) by simp
  qed
qed

lemma sim_inv_start:
  assumes "\<forall>y\<in>set tasks. 0 \<le> arrival_time y"
  shows "sim_inv tasks 0 new_queue []"
proof -
  have "{y \<in> set tasks. arrival_time y < 0 \<and> y \<notin> snd ` set []} = {}"
    using assms by auto
  moreover have "set (heap new_queue) = {}" by (simp add: new_queue_def)
  ultimately show ?thesis
    unfolding sim_inv_def using pq_invar_new timeline_ok_Nil by simp
qed

lemma simulate_scheduler_ok:
  assumes "distinct (map task_id tasks)" "\<forall>y\<in>set tasks. 0 \<le> arrival_time y"
    "0 \<le> max_time"
  shows "\<exists>out. simulate_scheduler tasks max_time = Inr out
       \<and> timeline_ok tasks out \<and> (\<forall>e\<in>set out. fst e \<le> max_time)"
proof -
  have "(0::int) \<le> 0" "0 \<le> max_time + 1" using assms(3) by simp_all
  then show ?thesis
    unfolding simulate_scheduler_def
    using sim_loop_ok [OF assms(1) sim_inv_start [OF assms(2)]] by blast
qed

text \<open>
  C7: for input tasks with distinct ids and non-negative arrival times and a
  non-negative horizon, the driver returns a timeline whose times are strictly
  increasing and lie in \<open>0..max_time\<close>; every entry's task had arrived by the entry's
  time; and the task of each entry is higher-priority than every other input task that
  had arrived by then and was not extracted earlier.
\<close>

theorem simulate_scheduler_timeline:
  assumes "distinct (map task_id tasks)" and "\<forall>y\<in>set tasks. 0 \<le> arrival_time y"
    and "0 \<le> max_time"
  shows "\<exists>timeline. simulate_scheduler tasks max_time = Inr timeline
       \<and> sorted_wrt (<) (map fst timeline)
       \<and> (\<forall>e\<in>set timeline. 0 \<le> fst e \<and> fst e \<le> max_time \<and> arrival_time (snd e) \<le> fst e)
       \<and> (\<forall>k<length timeline.
             snd (timeline ! k) \<in> set tasks
             \<and> snd (timeline ! k) \<notin> snd ` set (take k timeline)
             \<and> (\<forall>y\<in>set tasks.
                   arrival_time y \<le> fst (timeline ! k)
                   \<and> y \<notin> snd ` set (take k timeline) \<and> y \<noteq> snd (timeline ! k)
                   \<longrightarrow> higher_priority (snd (timeline ! k)) y))"
proof -
  obtain out where out: "simulate_scheduler tasks max_time = Inr out"
    "timeline_ok tasks out" "\<forall>e\<in>set out. fst e \<le> max_time"
    using simulate_scheduler_ok [OF assms] by blast
  have srt: "sorted_wrt (<) (map fst out)"
    and ent: "\<And>k. k < length out \<Longrightarrow>
      entry_ok tasks (snd ` set (take k out)) (fst (out ! k)) (snd (out ! k))"
    using out(2) unfolding timeline_ok_def by blast+
  have a: "\<forall>e\<in>set out. 0 \<le> fst e \<and> fst e \<le> max_time \<and> arrival_time (snd e) \<le> fst e"
  proof
    fix e assume e: "e \<in> set out"
    then obtain k where k: "k < length out" "out ! k = e" by (auto simp: in_set_conv_nth)
    have "0 \<le> fst e \<and> arrival_time (snd e) \<le> fst e"
      using ent [OF k(1)] unfolding entry_ok_def k(2) by blast
    then show "0 \<le> fst e \<and> fst e \<le> max_time \<and> arrival_time (snd e) \<le> fst e"
      using out(3) e by blast
  qed
  have b: "\<forall>k<length out.
      snd (out ! k) \<in> set tasks
      \<and> snd (out ! k) \<notin> snd ` set (take k out)
      \<and> (\<forall>y\<in>set tasks.
            arrival_time y \<le> fst (out ! k)
            \<and> y \<notin> snd ` set (take k out) \<and> y \<noteq> snd (out ! k)
            \<longrightarrow> higher_priority (snd (out ! k)) y)"
  proof (intro allI impI)
    fix k assume "k < length out"
    then have "entry_ok tasks (snd ` set (take k out)) (fst (out ! k)) (snd (out ! k))"
      by (rule ent)
    then show "snd (out ! k) \<in> set tasks
      \<and> snd (out ! k) \<notin> snd ` set (take k out)
      \<and> (\<forall>y\<in>set tasks.
            arrival_time y \<le> fst (out ! k)
            \<and> y \<notin> snd ` set (take k out) \<and> y \<noteq> snd (out ! k)
            \<longrightarrow> higher_priority (snd (out ! k)) y)"
      unfolding entry_ok_def by blast
  qed
  show ?thesis using out(1) srt a b by blast
qed

lemma demo_timeline:
  "simulate_scheduler demo_tasks 6 =
     Inr [(0, demo_tasks ! 0), (1, demo_tasks ! 1), (2, demo_tasks ! 3),
          (3, demo_tasks ! 2), (4, demo_tasks ! 4)]"
  by code_simp

theorem simulate_scheduler_timeline_witness:
  "distinct (map task_id demo_tasks)
   \<and> list_all (\<lambda>y. 0 \<le> arrival_time y) demo_tasks
   \<and> (0::int) \<le> 6
   \<and> simulate_scheduler demo_tasks 6 =
       Inr [(0, demo_tasks ! 0), (1, demo_tasks ! 1), (2, demo_tasks ! 3),
            (3, demo_tasks ! 2), (4, demo_tasks ! 4)]
   \<and> higher_priority (demo_tasks ! 3) (demo_tasks ! 2)"
proof -
  let ?tl = "[(0::int, demo_tasks ! 0), (1, demo_tasks ! 1), (2, demo_tasks ! 3),
    (3, demo_tasks ! 2), (4, demo_tasks ! 4)]"
  have d: "distinct (map task_id demo_tasks)" by (simp add: demo_tasks_def)
  have nn: "\<forall>y\<in>set demo_tasks. 0 \<le> arrival_time y" by (simp add: demo_tasks_def)
  have m: "(0::int) \<le> 6" by simp
  obtain timeline where t: "simulate_scheduler demo_tasks 6 = Inr timeline"
    and best: "\<forall>k<length timeline.
             snd (timeline ! k) \<in> set demo_tasks
             \<and> snd (timeline ! k) \<notin> snd ` set (take k timeline)
             \<and> (\<forall>y\<in>set demo_tasks.
                   arrival_time y \<le> fst (timeline ! k)
                   \<and> y \<notin> snd ` set (take k timeline) \<and> y \<noteq> snd (timeline ! k)
                   \<longrightarrow> higher_priority (snd (timeline ! k)) y)"
    using simulate_scheduler_timeline [OF d nn m] by blast
  have tl: "timeline = ?tl" using t demo_timeline by simp
  have "2 < length ?tl" by simp
  then have "\<forall>y\<in>set demo_tasks.
      arrival_time y \<le> fst (?tl ! 2) \<and> y \<notin> snd ` set (take 2 ?tl) \<and> y \<noteq> snd (?tl ! 2)
      \<longrightarrow> higher_priority (snd (?tl ! 2)) y"
    using best unfolding tl by blast
  moreover have "demo_tasks ! 2 \<in> set demo_tasks" by (simp add: demo_tasks_def)
  ultimately have "arrival_time (demo_tasks ! 2) \<le> fst (?tl ! 2)
      \<and> demo_tasks ! 2 \<notin> snd ` set (take 2 ?tl) \<and> demo_tasks ! 2 \<noteq> snd (?tl ! 2)
      \<longrightarrow> higher_priority (snd (?tl ! 2)) (demo_tasks ! 2)"
    by blast
  moreover have "arrival_time (demo_tasks ! 2) \<le> fst (?tl ! 2)
      \<and> demo_tasks ! 2 \<notin> snd ` set (take 2 ?tl) \<and> demo_tasks ! 2 \<noteq> snd (?tl ! 2)"
    by (simp add: demo_tasks_def)
  ultimately have "higher_priority (snd (?tl ! 2)) (demo_tasks ! 2)" by blast
  then have "higher_priority (demo_tasks ! 3) (demo_tasks ! 2)" by simp
  moreover have "list_all (\<lambda>y. 0 \<le> arrival_time y) demo_tasks"
    using nn by (simp add: list_all_iff)
  ultimately show ?thesis using d m t tl by simp
qed


section \<open>The horizon of the driver\<close>

lemma sim_loop_cong:
  "\<forall>t\<in>set ts. (case bt t of None \<Rightarrow> [] | Some l \<Rightarrow> l) = (case bt' t of None \<Rightarrow> [] | Some l \<Rightarrow> l)
     \<Longrightarrow> sim_loop bt ts q tline = sim_loop bt' ts q tline"
proof (induction ts arbitrary: q tline)
  case Nil
  show ?case by simp
next
  case (Cons t ts)
  have h: "(case bt t of None \<Rightarrow> [] | Some l \<Rightarrow> l) = (case bt' t of None \<Rightarrow> [] | Some l \<Rightarrow> l)"
    using Cons.prems by simp
  have r: "\<And>q tline. sim_loop bt ts q tline = sim_loop bt' ts q tline"
    using Cons.IH Cons.prems by simp
  show ?case unfolding sim_loop.simps h r ..
qed

text \<open>The tasks whose arrival time is inside the horizon \<open>0..max_time\<close>.\<close>

definition in_horizon :: "int \<Rightarrow> Task \<Rightarrow> bool" where
  "in_horizon max_time x \<longleftrightarrow> 0 \<le> arrival_time x \<and> arrival_time x \<le> max_time"

lemma simulate_scheduler_filter:
  "simulate_scheduler tasks max_time
     = simulate_scheduler (filter (in_horizon max_time) tasks) max_time"
  unfolding simulate_scheduler_def
proof (rule sim_loop_cong, rule ballI)
  fix t assume "t \<in> set [0..max_time]"
  then have t: "0 \<le> t" "t \<le> max_time" by simp_all
  have "filter (\<lambda>x. arrival_time x = t) (filter (in_horizon max_time) tasks)
      = filter (\<lambda>x. arrival_time x = t) tasks"
    unfolding filter_filter
    by (rule filter_cong) (use t in \<open>auto simp: in_horizon_def\<close>)
  then show "(case by_time_of tasks t of None \<Rightarrow> [] | Some l \<Rightarrow> l)
      = (case by_time_of (filter (in_horizon max_time) tasks) t of None \<Rightarrow> [] | Some l \<Rightarrow> l)"
    unfolding by_time_of_get by simp
qed

lemma timeline_length:
  assumes "sorted_wrt (<) (map fst out)" "\<forall>e\<in>set out. 0 \<le> fst e \<and> fst e \<le> m"
  shows "length out \<le> nat (m + 1)"
proof -
  have "distinct (map fst out)" using assms(1) unfolding strict_sorted_iff by blast
  then have "card (set (map fst out)) = length (map fst out)" by (rule distinct_card)
  then have "card (set (map fst out)) = length out" by simp
  moreover have "set (map fst out) \<subseteq> {0..m}" using assms(2) by auto
  then have "card (set (map fst out)) \<le> card {0..m}" by (rule card_mono [rotated]) simp
  ultimately show ?thesis by simp
qed

text \<open>
  C10: the driver's result does not depend on the tasks whose arrival time is negative
  or greater than \<open>max_time\<close>: they are never inserted. When the tasks inside the
  horizon have distinct ids, the run returns a timeline (no error, whatever the other
  tasks are) that holds only input tasks inside the horizon and at most
  \<open>max_time + 1\<close> of them; the tasks not extracted by then are simply not in it.
\<close>

theorem simulate_scheduler_horizon:
  "simulate_scheduler tasks max_time
     = simulate_scheduler (filter (in_horizon max_time) tasks) max_time
   \<and> (distinct (map task_id (filter (in_horizon max_time) tasks)) \<longrightarrow>
        (\<exists>timeline. simulate_scheduler tasks max_time = Inr timeline
           \<and> (\<forall>e\<in>set timeline. snd e \<in> set tasks \<and> in_horizon max_time (snd e))
           \<and> length timeline \<le> nat (max_time + 1)))"
proof (intro conjI impI)
  let ?F = "filter (in_horizon max_time) tasks"
  show eq: "simulate_scheduler tasks max_time = simulate_scheduler ?F max_time"
    by (rule simulate_scheduler_filter)
  assume d: "distinct (map task_id ?F)"
  show "\<exists>timeline. simulate_scheduler tasks max_time = Inr timeline
      \<and> (\<forall>e\<in>set timeline. snd e \<in> set tasks \<and> in_horizon max_time (snd e))
      \<and> length timeline \<le> nat (max_time + 1)"
  proof (cases "0 \<le> max_time")
    case False
    then have "[0..max_time] = []" by simp
    then have "simulate_scheduler tasks max_time = Inr []"
      unfolding simulate_scheduler_def by simp
    then show ?thesis by simp
  next
    case True
    have nn: "\<forall>y\<in>set ?F. 0 \<le> arrival_time y" by (simp add: in_horizon_def)
    obtain out where out: "simulate_scheduler ?F max_time = Inr out"
      "timeline_ok ?F out" "\<forall>e\<in>set out. fst e \<le> max_time"
      using simulate_scheduler_ok [OF d nn True] by blast
    have srt: "sorted_wrt (<) (map fst out)"
      and ent: "\<And>k. k < length out \<Longrightarrow>
        entry_ok ?F (snd ` set (take k out)) (fst (out ! k)) (snd (out ! k))"
      using out(2) unfolding timeline_ok_def by blast+
    have a: "\<forall>e\<in>set out. snd e \<in> set ?F \<and> 0 \<le> fst e"
    proof
      fix e assume "e \<in> set out"
      then obtain k where k: "k < length out" "out ! k = e" by (auto simp: in_set_conv_nth)
      show "snd e \<in> set ?F \<and> 0 \<le> fst e"
        using ent [OF k(1)] unfolding entry_ok_def k(2) by blast
    qed
    then have "\<forall>e\<in>set out. snd e \<in> set tasks \<and> in_horizon max_time (snd e)" by simp
    moreover have "\<forall>e\<in>set out. 0 \<le> fst e \<and> fst e \<le> max_time" using a out(3) by blast
    then have "length out \<le> nat (max_time + 1)" by (rule timeline_length [OF srt])
    ultimately show ?thesis unfolding eq out(1) by simp
  qed
qed

lemma demo_timeline_short:
  "simulate_scheduler demo_tasks 1 = Inr [(0, demo_tasks ! 0), (1, demo_tasks ! 1)]"
  by code_simp

theorem simulate_scheduler_horizon_witness:
  "distinct (map task_id (filter (in_horizon 1) demo_tasks))
   \<and> simulate_scheduler demo_tasks 1 = Inr [(0, demo_tasks ! 0), (1, demo_tasks ! 1)]
   \<and> simulate_scheduler (filter (in_horizon 1) demo_tasks) 1
        = Inr [(0, demo_tasks ! 0), (1, demo_tasks ! 1)]
   \<and> in_horizon 1 (demo_tasks ! 2)
   \<and> \<not> in_horizon 1 (demo_tasks ! 3)
   \<and> length [(0::int, demo_tasks ! 0), (1, demo_tasks ! 1)] \<le> nat (1 + 1)"
proof -
  have d: "distinct (map task_id (filter (in_horizon 1) demo_tasks))"
    by (simp add: demo_tasks_def in_horizon_def)
  have h: "in_horizon 1 (demo_tasks ! 2)" "\<not> in_horizon 1 (demo_tasks ! 3)"
    by (simp_all add: demo_tasks_def in_horizon_def)
  show ?thesis
    using simulate_scheduler_horizon [of demo_tasks 1] d h demo_timeline_short by simp
qed

end
